theory Spec2Isabelle
  imports Complex_Main "HOL-Library.Multiset"
begin

section \<open>JavaScript strings\<close>

text \<open>
  A JavaScript string is a sequence of UTF-16 code units; \<open>length\<close>, \<open>indexOf\<close>,
  \<open>substring\<close>, \<open>split\<close> and a regular expression without the \<open>u\<close> flag all count
  code units. A code unit is modelled by its number, a string by the list of its code
  units. \<open>js\<close> writes an ASCII literal.
\<close>

type_synonym jschar = nat
type_synonym jsstring = "jschar list"

definition js :: "string \<Rightarrow> jsstring" where
  "js s = map of_char s"

text \<open>
  The class \<open>\s\<close> of a regular expression, which is also what \<open>trim\<close> strips:
  WhiteSpace and LineTerminator of ECMAScript.
\<close>

definition is_space :: "jschar \<Rightarrow> bool" where
  "is_space c =
     (c = 9 \<or> c = 10 \<or> c = 11 \<or> c = 12 \<or> c = 13 \<or> c = 32 \<or> c = 160 \<or> c = 5760
      \<or> (8192 \<le> c \<and> c \<le> 8202) \<or> c = 8232 \<or> c = 8233 \<or> c = 8239 \<or> c = 8287
      \<or> c = 12288 \<or> c = 65279)"

text \<open>The class \<open>\d\<close>: the ten ASCII digits.\<close>

definition is_digit :: "jschar \<Rightarrow> bool" where
  "is_digit c = (48 \<le> c \<and> c \<le> 57)"

definition startsWith :: "jsstring \<Rightarrow> jsstring \<Rightarrow> bool" where
  "startsWith p s = (take (length p) s = p)"

text \<open>\<open>s.trim()\<close>.\<close>

definition trim :: "jsstring \<Rightarrow> jsstring" where
  "trim s = rev (dropWhile is_space (rev (dropWhile is_space s)))"

text \<open>\<open>s.indexOf(c)\<close> for a one-character needle: the first position, or -1.\<close>

fun indexOf :: "jsstring \<Rightarrow> jschar \<Rightarrow> int" where
  "indexOf [] c = -1"
| "indexOf (x # xs) c =
     (if x = c then 0 else (let i = indexOf xs c in if i < 0 then -1 else i + 1))"

text \<open>
  \<open>s.split('$$$')\<close>: the pieces between the occurrences of the separator, found from
  left to right without overlap. \<open>cur\<close> is the piece being read.
\<close>

fun split_from :: "jsstring \<Rightarrow> jsstring \<Rightarrow> jsstring list" where
  "split_from cur [] = [cur]"
| "split_from cur (c # cs) =
     (if startsWith (js ''$$$'') (c # cs) then cur # split_from [] (drop 2 cs)
      else split_from (cur @ [c]) cs)"

definition split_dollars :: "jsstring \<Rightarrow> jsstring list" where
  "split_dollars s = split_from [] s"

section \<open>The episode extractor\<close>

text \<open>
  Both routes hold the same text (category/route.ts lines 71-87, hot/route.ts lines
  92-108):
  \<^verbatim>\<open>
  let episodes: string[] = [];
  if (item.vod_play_url) {
    const m3u8Regex = /\$(https?:\/\/[^"'\s]+?\.m3u8)/g;
    const vod_play_url_array = item.vod_play_url.split('$$$');
    vod_play_url_array.forEach((url: string) => {
      const matches = url.match(m3u8Regex) || [];
      if (matches.length > episodes.length) { episodes = matches; }
    });
  }
  episodes = Array.from(new Set(episodes)).map((link: string) => {
    link = link.substring(1);
    const parenIndex = link.indexOf('(');
    return parenIndex > 0 ? link.substring(0, parenIndex) : link;
  });
  \<close>
\<close>

text \<open>The class \<open>[^"'\s]\<close>.\<close>

definition url_char :: "jschar \<Rightarrow> bool" where
  "url_char c = (c \<noteq> 34 \<and> c \<noteq> 39 \<and> \<not> is_space c)"

text \<open>
  \<open>[^"'\s]+?\.m3u8\<close> after at least one character of the class has been read into
  \<open>acc\<close>: the lazy quantifier tries \<open>\.m3u8\<close> here first and reads one more
  character of the class only when that fails. The result is the text matched so far
  and the rest of the subject.
\<close>

fun lazy_tail :: "jsstring \<Rightarrow> jsstring \<Rightarrow> (jsstring \<times> jsstring) option" where
  "lazy_tail acc [] = None"
| "lazy_tail acc (c # cs) =
     (if startsWith (js ''.m3u8'') (c # cs) then Some (acc @ js ''.m3u8'', drop 4 cs)
      else if url_char c then lazy_tail (acc @ [c]) cs
      else None)"

text \<open>The first, obligatory character of \<open>[^"'\s]+?\<close>, after the prefix \<open>pre\<close>.\<close>

fun url_body :: "jsstring \<Rightarrow> jsstring \<Rightarrow> (jsstring \<times> jsstring) option" where
  "url_body pre [] = None"
| "url_body pre (c # cs) = (if url_char c then lazy_tail (pre @ [c]) cs else None)"

text \<open>
  One attempt of the whole expression at the start of \<open>s\<close>. After \<open>$http\<close> the
  optional \<open>s\<close> leaves no choice: \<open>://\<close> has to follow, and it cannot start with
  \<open>s\<close>.
\<close>

definition match_at :: "jsstring \<Rightarrow> (jsstring \<times> jsstring) option" where
  "match_at s =
     (if startsWith (js ''$https://'') s then url_body (js ''$https://'') (drop 9 s)
      else if startsWith (js ''$http://'') s then url_body (js ''$http://'') (drop 8 s)
      else None)"

text \<open>
  \<open>url.match(m3u8Regex) || []\<close> with the \<open>g\<close> flag: every match from left to
  right, the search going on where the last match ended, or one character further
  where there was none.
\<close>

function match_all :: "jsstring \<Rightarrow> jsstring list" where
  "match_all [] = []"
| "match_all (c # cs) =
     (case match_at (c # cs) of
        Some (m, r) \<Rightarrow> m # match_all r
      | None \<Rightarrow> match_all cs)"
  by pat_completeness auto
termination
proof -
  have lazy: "length r < length s" if "lazy_tail acc s = Some (m, r)" for acc s m r
    using that by (induction acc s rule: lazy_tail.induct) (auto split: if_splits)
  have body: "length r < length s" if "url_body pre s = Some (m, r)" for pre s m r
    using that by (cases s) (auto split: if_splits dest: lazy)
  have at: "length r < length s" if "match_at s = Some (m, r)" for s m r
    using that by (auto simp: match_at_def split: if_splits dest!: body)
  show ?thesis
    by (relation "measure length") (auto dest: at)
qed

text \<open>The body of the \<open>forEach\<close>: a group replaces the chosen one only with strictly more matches.\<close>

definition pick_group :: "jsstring list \<Rightarrow> jsstring \<Rightarrow> jsstring list" where
  "pick_group episodes url =
     (let matches = match_all url
      in if length matches > length episodes then matches else episodes)"

text \<open>
  \<open>new Set(xs)\<close> adds the elements one by one; an element already present is not
  added again, and iteration is in insertion order.
\<close>

definition set_add :: "'a list \<Rightarrow> 'a \<Rightarrow> 'a list" where
  "set_add s x = (if x \<in> set s then s else s @ [x])"

definition new_Set :: "'a list \<Rightarrow> 'a list" where
  "new_Set xs = foldl set_add [] xs"

text \<open>The function mapped over the set: drop the \<open>$\<close>, cut at a parenthesis.\<close>

definition clean_link :: "jsstring \<Rightarrow> jsstring" where
  "clean_link link0 =
     (let link = drop 1 link0;
          parenIndex = indexOf link 40
      in if parenIndex > 0 then take (nat parenIndex) link else link)"

text \<open>An absent field and the empty string are both falsy.\<close>

definition extractEpisodes :: "jsstring option \<Rightarrow> jsstring list" where
  "extractEpisodes vod_play_url =
     (let episodes =
        (case vod_play_url of
           None \<Rightarrow> []
         | Some p \<Rightarrow> if p = [] then [] else foldl pick_group [] (split_dollars p))
      in map clean_link (new_Set episodes))"

section \<open>Raw backend records and video records\<close>

text \<open>
  A raw record is what \<open>interface ApiSearchItem\<close> of hot/route.ts declares: every field
  optional, every present field a string. \<open>vod_id\<close> is \<open>string | number\<close> in the source and
  only used through \<open>toString()\<close>; the field holds that text.
\<close>

record ApiSearchItem =
  vod_id :: "jsstring option"
  vod_name :: "jsstring option"
  vod_pic :: "jsstring option"
  vod_play_url :: "jsstring option"
  vod_class :: "jsstring option"
  vod_year :: "jsstring option"
  vod_content :: "jsstring option"
  item_type_name :: "jsstring option"

text \<open>\<open>interface VideoResult\<close>; \<open>vid\<close> is its \<open>id\<close> and \<open>vclass\<close> its \<open>class\<close>.\<close>

record VideoResult =
  vid :: jsstring
  title :: jsstring
  poster :: jsstring
  episodes :: "jsstring list"
  source :: jsstring
  source_name :: jsstring
  vclass :: jsstring
  year :: jsstring
  desc :: jsstring
  type_name :: jsstring

text \<open>\<open>x || d\<close> for an optional string: \<open>undefined\<close> and \<open>''\<close> are falsy.\<close>

definition or_else :: "jsstring option \<Rightarrow> jsstring \<Rightarrow> jsstring" where
  "or_else x d = (case x of None \<Rightarrow> d | Some s \<Rightarrow> if s = [] then d else s)"

text \<open>\<open>s.replace(/\s+/g, ' ')\<close>: every maximal run of white space becomes one space.\<close>

function collapse_ws :: "jsstring \<Rightarrow> jsstring" where
  "collapse_ws [] = []"
| "collapse_ws (c # cs) =
     (if is_space c then 32 # collapse_ws (dropWhile is_space cs) else c # collapse_ws cs)"
  by pat_completeness auto
termination
  by (relation "measure length") (auto simp: less_Suc_eq_le length_dropWhile_le)

text \<open>\<open>s.match(/\d{4}/)?.[0]\<close>: the first four consecutive digits, if there are any.\<close>

fun match_year :: "jsstring \<Rightarrow> jsstring option" where
  "match_year [] = None"
| "match_year (c # cs) =
     (if 4 \<le> length (c # cs) \<and> list_all is_digit (take 4 (c # cs)) then Some (take 4 (c # cs))
      else match_year cs)"

text \<open>
  \<open>item.vod_year ? item.vod_year.match(/\d{4}/)?.[0] || '' : 'unknown'\<close>;
  \<open>||\<close> binds tighter than the conditional.
\<close>

definition normalize_year :: "jsstring option \<Rightarrow> jsstring" where
  "normalize_year y =
     (case y of
        None \<Rightarrow> js ''unknown''
      | Some s \<Rightarrow>
          if s = [] then js ''unknown''
          else or_else (match_year s) [])"

text \<open>The literal of the source for a record without a name (four Chinese characters).\<close>

definition unknown_title :: jsstring where
  "unknown_title = [26410, 30693, 26631, 39064]"

text \<open>
  What the program takes from outside. \<open>cleanHtmlTags\<close> is imported from \<open>@/lib/utils\<close>,
  \<open>toLowerCase\<close> is the engine's Unicode case mapping: both are any function on strings.
  \<open>token i j\<close> is \<open>Math.random().toString(36).substr(2, 9)\<close> as drawn for item \<open>j\<close> of
  source \<open>i\<close>. The other fields are explained where they are used.
\<close>

datatype error = AbortError | Error jsstring

datatype 'a completion = Return 'a | Throw error

datatype payload = Falsy | Without_list | List_not_array | Items "ApiSearchItem list"

record Response =
  status :: nat
  json :: "payload completion"

datatype network = Responds nat Response | Rejects nat error | Hangs

datatype sort_plan = Done | Exchange nat nat sort_plan | Compare sort_plan sort_plan sort_plan

record ApiSite =
  key :: jsstring
  name :: jsstring
  api :: jsstring

record world =
  cleanHtmlTags :: "jsstring \<Rightarrow> jsstring"
  toLowerCase :: "jsstring \<Rightarrow> jsstring"
  token :: "nat \<Rightarrow> nat \<Rightarrow> jsstring"
  getAvailableApiSites :: "ApiSite list completion"
  answer :: "nat \<Rightarrow> network"
  random :: "nat \<Rightarrow> real"
  engine_sort :: "nat \<Rightarrow> sort_plan"
  spread_limit :: nat

text \<open>
  The function mapped over \<open>data.list\<close>, the same text in both routes
  (category/route.ts lines 70-100, hot/route.ts lines 90-121); \<open>i\<close> and \<open>j\<close> number the
  source and the item.
\<close>

definition convertItem :: "world \<Rightarrow> nat \<Rightarrow> jsstring \<Rightarrow> jsstring \<Rightarrow> nat \<Rightarrow> ApiSearchItem \<Rightarrow> VideoResult" where
  "convertItem W i sourceKey sourceName j item =
     \<lparr> vid = or_else (vod_id item) (sourceKey @ js ''-'' @ token W i j),
       title = or_else (map_option (\<lambda>s. collapse_ws (trim s)) (vod_name item)) unknown_title,
       poster = or_else (vod_pic item) [],
       episodes = extractEpisodes (vod_play_url item),
       source = sourceKey,
       source_name = sourceName,
       vclass = or_else (vod_class item) [],
       year = normalize_year (vod_year item),
       desc = cleanHtmlTags W (or_else (vod_content item) []),
       type_name = or_else (item_type_name item) [] \<rparr>"

text \<open>\<open>.filter((video) => video.title && video.poster)\<close>.\<close>

definition valid_video :: "VideoResult \<Rightarrow> bool" where
  "valid_video video = (title video \<noteq> [] \<and> poster video \<noteq> [])"

definition convertList :: "world \<Rightarrow> nat \<Rightarrow> jsstring \<Rightarrow> jsstring \<Rightarrow> ApiSearchItem list \<Rightarrow> VideoResult list" where
  "convertList W i sourceKey sourceName list =
     filter valid_video (map (\<lambda>(j, item). convertItem W i sourceKey sourceName j item) (enumerate 0 list))"

section \<open>One source\<close>

text \<open>
  The request goes to the network, which is taken as it comes: \<open>Responds t r\<close> when
  \<open>fetch\<close> would resolve with the response \<open>r\<close> after \<open>t\<close> milliseconds (whatever its
  status), \<open>Rejects t e\<close> when it would reject with \<open>e\<close> after \<open>t\<close> milliseconds, \<open>Hangs\<close>
  when it would never settle. \<open>answer W i\<close> is what the network does with the request to
  source \<open>i\<close>; the request URL and its headers only select that answer and are not
  modelled. An \<open>async\<close> function is modelled by how its promise settles: \<open>Return\<close> when
  fulfilled, \<open>Throw\<close> when rejected.
\<close>

definition ok :: "Response \<Rightarrow> bool" where
  "ok response = (200 \<le> status response \<and> status response \<le> 299)"

text \<open>
  \<^verbatim>\<open>
  const timeoutId = setTimeout(() => controller.abort(), 8000);
  try {
    const response = await fetch(url, fetchOptions);
    clearTimeout(timeoutId);
    return response;
  } catch (error) {
    clearTimeout(timeoutId);
    throw error;
  }
  \<close>
  The timer aborts a request that has not settled after 8000 ms; \<open>fetch\<close> then rejects
  with an \<open>AbortError\<close>, which the \<open>catch\<close> throws again like every other error.
\<close>

definition fetchWithTimeout :: "network \<Rightarrow> Response completion" where
  "fetchWithTimeout net =
     (case net of
        Responds t response \<Rightarrow> if t < 8000 then Return response else Throw AbortError
      | Rejects t e \<Rightarrow> if t < 8000 then Throw e else Throw AbortError
      | Hangs \<Rightarrow> Throw AbortError)"

text \<open>\<open>hay.includes(needle)\<close>.\<close>

fun includes_str :: "jsstring \<Rightarrow> jsstring \<Rightarrow> bool" where
  "includes_str [] needle = (needle = [])"
| "includes_str (c # cs) needle = (startsWith needle (c # cs) \<or> includes_str cs needle)"

text \<open>The label of the category that stands for all of them (two Chinese characters).\<close>

definition all_categories :: jsstring where
  "all_categories = [20840, 37096]"

text \<open>The filter of category/route.ts lines 105-114.\<close>

definition category_match :: "world \<Rightarrow> jsstring \<Rightarrow> VideoResult \<Rightarrow> bool" where
  "category_match W category video =
     (let videoClass = toLowerCase W (vclass video);
          videoTypeName = toLowerCase W (type_name video);
          videoTitle = toLowerCase W (title video);
          categoryLower = toLowerCase W category
      in includes_str videoClass categoryLower \<or> includes_str videoTypeName categoryLower
         \<or> includes_str videoTitle categoryLower)"

text \<open>
  The \<open>try\<close> block of \<open>fetchCategoryVideosFromApi\<close> (category/route.ts lines 45-117):
  what it returns, or what it throws into the \<open>catch\<close>.
\<close>

definition category_try :: "world \<Rightarrow> nat \<Rightarrow> jsstring \<Rightarrow> jsstring \<Rightarrow> jsstring \<Rightarrow> VideoResult list completion" where
  "category_try W i sourceKey sourceName category =
     (case fetchWithTimeout (answer W i) of
        Throw e \<Rightarrow> Throw e
      | Return response \<Rightarrow>
          if \<not> ok response then Return []
          else
            (case json response of
               Throw e \<Rightarrow> Throw e
             | Return (Items list) \<Rightarrow>
                 if list = [] then Return []
                 else
                   (let videos = convertList W i sourceKey sourceName list
                    in if category \<noteq> all_categories
                       then Return (filter (category_match W category) videos)
                       else Return videos)
             | Return _ \<Rightarrow> Return []))"

text \<open>\<open>catch (error) { console.warn(...); return []; }\<close>\<close>

definition fetchCategoryVideosFromApi :: "world \<Rightarrow> nat \<Rightarrow> jsstring \<Rightarrow> jsstring \<Rightarrow> jsstring \<Rightarrow> VideoResult list completion" where
  "fetchCategoryVideosFromApi W i sourceKey sourceName category =
     (case category_try W i sourceKey sourceName category of
        Throw e \<Rightarrow> Return []
      | Return videos \<Rightarrow> Return videos)"

text \<open>The \<open>try\<close> block of \<open>fetchHotVideosFromApi\<close> (hot/route.ts lines 66-122).\<close>

definition hot_try :: "world \<Rightarrow> nat \<Rightarrow> jsstring \<Rightarrow> jsstring \<Rightarrow> VideoResult list completion" where
  "hot_try W i sourceKey sourceName =
     (case fetchWithTimeout (answer W i) of
        Throw e \<Rightarrow> Throw e
      | Return response \<Rightarrow>
          if \<not> ok response then Return []
          else
            (case json response of
               Throw e \<Rightarrow> Throw e
             | Return (Items list) \<Rightarrow>
                 if list = [] then Return []
                 else Return (convertList W i sourceKey sourceName list)
             | Return _ \<Rightarrow> Return []))"

definition fetchHotVideosFromApi :: "world \<Rightarrow> nat \<Rightarrow> jsstring \<Rightarrow> jsstring \<Rightarrow> VideoResult list completion" where
  "fetchHotVideosFromApi W i sourceKey sourceName =
     (case hot_try W i sourceKey sourceName of
        Throw e \<Rightarrow> Return []
      | Return videos \<Rightarrow> Return videos)"

section \<open>Merging, deduplication, ordering, pagination\<close>

text \<open>
  \<open>results.forEach\<close> over the outcomes of \<open>Promise.allSettled\<close>: a rejected promise is
  skipped, the value of a fulfilled one is appended by \<open>allVideos.push(...result.value)\<close>.
  The spread makes every record of the value an argument of the one call of \<open>push\<close>. An
  engine accepts only so many arguments in a call and throws a \<open>RangeError\<close> when there
  are more; \<open>spread_limit W\<close> is the largest number it accepts, and \<open>range_error\<close>
  carries the message V8 gives. The throw ends the \<open>forEach\<close> and leaves \<open>GET\<close> through
  its \<open>catch\<close>.
\<close>

definition range_error :: error where
  "range_error = Error (js ''Maximum call stack size exceeded'')"

definition push_settled :: "world \<Rightarrow> VideoResult list \<Rightarrow> VideoResult list completion \<Rightarrow> VideoResult list completion" where
  "push_settled W allVideos result =
     (case result of
        Return v \<Rightarrow> if spread_limit W < length v then Throw range_error else Return (allVideos @ v)
      | Throw e \<Rightarrow> Return allVideos)"

fun forEach_push :: "world \<Rightarrow> VideoResult list \<Rightarrow> VideoResult list completion list \<Rightarrow> VideoResult list completion" where
  "forEach_push W allVideos [] = Return allVideos"
| "forEach_push W allVideos (result # results) =
     (case push_settled W allVideos result of
        Throw e \<Rightarrow> Throw e
      | Return allVideos' \<Rightarrow> forEach_push W allVideos' results)"

text \<open>
  A \<open>Map\<close> is the list of its entries in insertion order. \<open>map.set(k, v)\<close> on a key that
  is present replaces the value and leaves the entry where it is; a new key is appended.
  \<open>new Map(entries)\<close> calls \<open>set\<close> for one entry after the other.
\<close>

fun map_set :: "('k \<times> 'v) list \<Rightarrow> 'k \<Rightarrow> 'v \<Rightarrow> ('k \<times> 'v) list" where
  "map_set [] k v = [(k, v)]"
| "map_set ((k', v') # m) k v = (if k' = k then (k', v) # m else (k', v') # map_set m k v)"

definition new_Map :: "('k \<times> 'v) list \<Rightarrow> ('k \<times> 'v) list" where
  "new_Map entries = foldl (\<lambda>m (k, v). map_set m k v) [] entries"

definition map_values :: "('k \<times> 'v) list \<Rightarrow> 'v list" where
  "map_values m = map snd m"

text \<open>The key of category/route.ts line 168 and the one of hot/route.ts line 164.\<close>

definition category_key :: "world \<Rightarrow> VideoResult \<Rightarrow> jsstring" where
  "category_key W video = toLowerCase W (title video) @ js ''-'' @ year video @ js ''-'' @ source video"

definition hot_key :: "world \<Rightarrow> VideoResult \<Rightarrow> jsstring" where
  "hot_key W video = toLowerCase W (title video) @ js ''-'' @ year video @ js ''-'' @ vclass video"

definition uniqueBy :: "(VideoResult \<Rightarrow> jsstring) \<Rightarrow> VideoResult list \<Rightarrow> VideoResult list" where
  "uniqueBy keyOf allVideos = map_values (new_Map (map (\<lambda>video. (keyOf video, video)) allVideos))"

text \<open>
  \<open>uniqueVideos.sort(() => 0.5 - Math.random())\<close>. ECMAScript leaves to the engine which
  comparator calls \<open>Array.prototype.sort\<close> makes, and with a comparator that is not
  consistent the resulting order as well. The engine is modelled as running a plan: it
  calls the comparator and goes on according to the sign of the result, or it exchanges
  the elements at two positions of the array. \<open>engine_sort W n\<close> is the plan for an array
  of length \<open>n\<close>. The comparator ignores both of its arguments; its \<open>k\<close>-th call draws
  \<open>random W k\<close> from \<open>Math.random\<close>.
\<close>

definition comparator :: "real \<Rightarrow> real" where
  "comparator r = 0.5 - r"

definition exchange :: "nat \<Rightarrow> nat \<Rightarrow> 'a list \<Rightarrow> 'a list" where
  "exchange i j xs = (if i < length xs \<and> j < length xs then xs[i := xs ! j, j := xs ! i] else xs)"

fun run_plan :: "sort_plan \<Rightarrow> (nat \<Rightarrow> real) \<Rightarrow> nat \<Rightarrow> 'a list \<Rightarrow> 'a list" where
  "run_plan Done rnd k xs = xs"
| "run_plan (Exchange i j p) rnd k xs = run_plan p rnd k (exchange i j xs)"
| "run_plan (Compare neg zero pos) rnd k xs =
     (let order = comparator (rnd k)
      in if order < 0 then run_plan neg rnd (Suc k) xs
         else if order = 0 then run_plan zero rnd (Suc k) xs
         else run_plan pos rnd (Suc k) xs)"

definition sort_random :: "world \<Rightarrow> 'a list \<Rightarrow> 'a list" where
  "sort_random W xs = run_plan (engine_sort W (length xs)) (random W) 0 xs"

text \<open>
  The numbers \<open>parseInt\<close> returns: \<open>NaN\<close> or an integer (the infinite results of inputs
  of several hundred digits are left out). \<open>xs.slice(start, end)\<close> turns each argument
  into a position between 0 and the length: \<open>NaN\<close> is 0, a negative number counts from
  the end.
\<close>

datatype jsnum = NaN | Num int

fun js_add :: "jsnum \<Rightarrow> jsnum \<Rightarrow> jsnum" where
  "js_add (Num a) (Num b) = Num (a + b)"
| "js_add _ _ = NaN"

fun slice_position :: "nat \<Rightarrow> jsnum \<Rightarrow> nat" where
  "slice_position len NaN = 0"
| "slice_position len (Num r) = (if r < 0 then nat (max (int len + r) 0) else min (nat r) len)"

definition slice :: "'a list \<Rightarrow> jsnum \<Rightarrow> jsnum \<Rightarrow> 'a list" where
  "slice xs start end' =
     (let k = slice_position (length xs) start;
          final = slice_position (length xs) end'
      in take (final - k) (drop k xs))"

section \<open>The two endpoints\<close>

record JsonResponse =
  code :: nat
  message :: jsstring
  list :: "VideoResult list"

fun error_message :: "error \<Rightarrow> jsstring" where
  "error_message AbortError = js ''This operation was aborted''"
| "error_message (Error m) = m"

text \<open>The three messages of category/route.ts and the failure message of hot/route.ts.\<close>

definition msg_no_sources :: jsstring where
  "msg_no_sources = [26242, 26080, 21487, 29992, 35270, 39057, 28304]"

definition msg_success :: jsstring where
  "msg_success = [33719, 21462, 25104, 21151]"

definition msg_category_failed :: jsstring where
  "msg_category_failed = [33719, 21462, 35270, 39057, 22833, 36133, 58, 32]"

definition msg_hot_failed :: jsstring where
  "msg_hot_failed = [33719, 21462, 28909, 38376, 35270, 39057, 22833, 36133, 58, 32]"

text \<open>
  \<open>GET\<close> of category/route.ts. \<open>category\<close> is \<open>searchParams.get('category')\<close>,
  \<open>pageLimit\<close> and \<open>pageStart\<close> are the two numbers after \<open>parseInt\<close>. Two calls can
  throw into the outer \<open>catch\<close>, which answers with code 500: \<open>getAvailableApiSites\<close>, and
  the \<open>push\<close> of a value that is too long to be spread.
\<close>

definition category_allVideos :: "world \<Rightarrow> ApiSite list \<Rightarrow> jsstring \<Rightarrow> VideoResult list completion" where
  "category_allVideos W apiSites category =
     forEach_push W []
       (map (\<lambda>(i, site). fetchCategoryVideosFromApi W i (key site) (name site) category)
          (enumerate 0 apiSites))"

definition GET_category :: "world \<Rightarrow> jsstring option \<Rightarrow> jsnum \<Rightarrow> jsnum \<Rightarrow> JsonResponse" where
  "GET_category W category_param pageLimit pageStart =
     (case getAvailableApiSites W of
        Throw e \<Rightarrow> \<lparr> code = 500, message = msg_category_failed @ error_message e, list = [] \<rparr>
      | Return apiSites \<Rightarrow>
          if apiSites = [] then \<lparr> code = 200, message = msg_no_sources, list = [] \<rparr>
          else
            (case category_allVideos W apiSites (or_else category_param all_categories) of
               Throw e \<Rightarrow> \<lparr> code = 500, message = msg_category_failed @ error_message e, list = [] \<rparr>
             | Return allVideos \<Rightarrow>
                 (let uniqueVideos = uniqueBy (category_key W) allVideos;
                      shuffled = sort_random W uniqueVideos;
                      paginatedVideos = slice shuffled pageStart (js_add pageStart pageLimit)
                  in \<lparr> code = 200, message = msg_success, list = paginatedVideos \<rparr>)))"

text \<open>\<open>GET\<close> of hot/route.ts: the first three sources, the key with the class.\<close>

definition hot_allVideos :: "world \<Rightarrow> ApiSite list \<Rightarrow> VideoResult list completion" where
  "hot_allVideos W apiSites =
     forEach_push W []
       (map (\<lambda>(i, site). fetchHotVideosFromApi W i (key site) (name site))
          (enumerate 0 (take 3 apiSites)))"

definition GET_hot :: "world \<Rightarrow> jsnum \<Rightarrow> jsnum \<Rightarrow> JsonResponse" where
  "GET_hot W pageLimit pageStart =
     (case getAvailableApiSites W of
        Throw e \<Rightarrow> \<lparr> code = 500, message = msg_hot_failed @ error_message e, list = [] \<rparr>
      | Return apiSites \<Rightarrow>
          if apiSites = [] then \<lparr> code = 200, message = msg_no_sources, list = [] \<rparr>
          else
            (case hot_allVideos W apiSites of
               Throw e \<Rightarrow> \<lparr> code = 500, message = msg_hot_failed @ error_message e, list = [] \<rparr>
             | Return allVideos \<Rightarrow>
                 (let uniqueVideos = uniqueBy (hot_key W) allVideos;
                      shuffled = sort_random W uniqueVideos;
                      paginatedVideos = slice shuffled pageStart (js_add pageStart pageLimit)
                  in \<lparr> code = 200, message = msg_success, list = paginatedVideos \<rparr>)))"

section \<open>Notions of the specification\<close>

text \<open>A run of four digits starts at position \<open>k\<close> of \<open>s\<close>.\<close>

definition digit_run_at :: "jsstring \<Rightarrow> nat \<Rightarrow> bool" where
  "digit_run_at s k = (k + 4 \<le> length s \<and> list_all is_digit (take 4 (drop k s)))"

text \<open>
  The page of the specification: the elements at the positions of the interval from
  \<open>start\<close> to \<open>start + limit\<close> (the latter excluded) that lie within the sequence.
\<close>

definition page_of :: "'a list \<Rightarrow> int \<Rightarrow> int \<Rightarrow> 'a list" where
  "page_of xs start limit =
     (let lo = max start 0;
          hi = min (start + limit) (int (length xs))
      in take (nat (hi - lo)) (drop (nat lo) xs))"

text \<open>The elements of a sequence without repetition, in the order in which they are first seen.\<close>

primrec first_seen :: "'a list \<Rightarrow> 'a list" where
  "first_seen [] = []"
| "first_seen (x # xs) = x # filter (\<lambda>y. y \<noteq> x) (first_seen xs)"

text \<open>
  The words of a name: the maximal runs of characters that are not white space, in their
  order. \<open>cur\<close> is the word being read. \<open>join_spaces\<close> puts one space between two words.
\<close>

fun words_from :: "jsstring \<Rightarrow> jsstring \<Rightarrow> jsstring list" where
  "words_from cur [] = (if cur = [] then [] else [cur])"
| "words_from cur (c # cs) =
     (if is_space c then (if cur = [] then words_from [] cs else cur # words_from [] cs)
      else words_from (cur @ [c]) cs)"

definition words_of :: "jsstring \<Rightarrow> jsstring list" where
  "words_of s = words_from [] s"

fun join_spaces :: "jsstring list \<Rightarrow> jsstring" where
  "join_spaces [] = []"
| "join_spaces [w] = w"
| "join_spaces (w # v # ws) = w @ 32 # join_spaces (v # ws)"

text \<open>
  A source fails: timeout, network error, a status that is not 2xx, a body that is not
  JSON, or JSON without a list. \<open>source_items\<close> is the list of a source that does not
  fail, \<open>category_produced\<close> and \<open>hot_produced\<close> are the records it contributes.
\<close>

definition source_fails :: "world \<Rightarrow> nat \<Rightarrow> bool" where
  "source_fails W i =
     (case answer W i of
        Responds t response \<Rightarrow>
          (8000 \<le> t \<or> \<not> ok response
           \<or> (case json response of Return (Items l) \<Rightarrow> False | _ \<Rightarrow> True))
      | _ \<Rightarrow> True)"

definition source_items :: "world \<Rightarrow> nat \<Rightarrow> ApiSearchItem list" where
  "source_items W i =
     (case answer W i of
        Responds t response \<Rightarrow> (case json response of Return (Items l) \<Rightarrow> l | _ \<Rightarrow> [])
      | _ \<Rightarrow> [])"

definition hot_produced :: "world \<Rightarrow> nat \<Rightarrow> ApiSite \<Rightarrow> VideoResult list" where
  "hot_produced W i site = convertList W i (key site) (name site) (source_items W i)"

definition category_produced :: "world \<Rightarrow> jsstring \<Rightarrow> nat \<Rightarrow> ApiSite \<Rightarrow> VideoResult list" where
  "category_produced W category i site =
     (if category = all_categories then hot_produced W i site
      else filter (category_match W category) (hot_produced W i site))"

text \<open>
  What the sources that do not fail produced, in the order of the sources; and whether
  one of them produced more records than the engine takes as arguments of one call.
\<close>

definition category_merged :: "world \<Rightarrow> ApiSite list \<Rightarrow> jsstring \<Rightarrow> VideoResult list" where
  "category_merged W sites category =
     concat (map (\<lambda>(i, site). category_produced W category i site)
       (filter (\<lambda>(i, site). \<not> source_fails W i) (enumerate 0 sites)))"

definition hot_merged :: "world \<Rightarrow> ApiSite list \<Rightarrow> VideoResult list" where
  "hot_merged W sites =
     concat (map (\<lambda>(i, site). hot_produced W i site)
       (filter (\<lambda>(i, site). \<not> source_fails W i) (enumerate 0 (take 3 sites))))"

definition category_overflow :: "world \<Rightarrow> ApiSite list \<Rightarrow> jsstring \<Rightarrow> bool" where
  "category_overflow W sites category =
     list_ex (\<lambda>(i, site). \<not> source_fails W i \<and> spread_limit W < length (category_produced W category i site))
       (enumerate 0 sites)"

definition hot_overflow :: "world \<Rightarrow> ApiSite list \<Rightarrow> bool" where
  "hot_overflow W sites =
     list_ex (\<lambda>(i, site). \<not> source_fails W i \<and> spread_limit W < length (hot_produced W i site))
       (enumerate 0 (take 3 sites))"

text \<open>
  The second input of the round trip of the specification: every URL with \<open>$\<close> in
  front, the results joined by \<open>$$$\<close>.
\<close>

fun join_dollars :: "jsstring list \<Rightarrow> jsstring" where
  "join_dollars [] = []"
| "join_dollars [u] = u"
| "join_dollars (u # us) = u @ js ''$$$'' @ join_dollars us"

definition rejoin :: "jsstring list \<Rightarrow> jsstring" where
  "rejoin urls = join_dollars (map (\<lambda>u. js ''$'' @ u) urls)"

text \<open>
  The group the specification selects: the first one whose number of matches is the
  largest of all.
\<close>

definition largest_group :: "jsstring list list \<Rightarrow> jsstring list" where
  "largest_group groups =
     (case filter (\<lambda>g. length g = foldr max (map length groups) 0) groups of
        [] \<Rightarrow> []
      | g # _ \<Rightarrow> g)"

text \<open>
  What the pattern of the specification matches: \<open>$\<close>, then \<open>http://\<close> or \<open>https://\<close>,
  then a body, then \<open>.m3u8\<close>. The body is not empty, holds no double quote, no single
  quote and no white space, and \<open>.m3u8\<close> does not occur after its first character
  before the body ends: the URL ends at the first \<open>.m3u8\<close> that can end it.
\<close>

definition m3u8_body :: "jsstring \<Rightarrow> bool" where
  "m3u8_body body =
     (body \<noteq> [] \<and> list_all (\<lambda>c. c \<noteq> 34 \<and> c \<noteq> 39 \<and> \<not> is_space c) body
      \<and> \<not> list_ex (\<lambda>k. take 5 (drop k body @ js ''.m3u8'') = js ''.m3u8'') [1..<length body])"

definition m3u8_match :: "jsstring \<Rightarrow> bool" where
  "m3u8_match m =
     list_ex (\<lambda>pre. take (length pre) m = pre \<and> length pre + 5 \<le> length m
                \<and> drop (length m - 5) m = js ''.m3u8''
                \<and> m3u8_body (take (length m - length pre - 5) (drop (length pre) m)))
       [js ''$http://'', js ''$https://'']"

text \<open>
  What the specification does with a selected match: the leading \<open>$\<close> goes, and what
  is left is cut at its first parenthesis when that is at a position greater than 0.
\<close>

definition strip_annotation :: "jsstring \<Rightarrow> jsstring" where
  "strip_annotation m =
     (let u = drop 1 m;
          before = takeWhile (\<lambda>c. c \<noteq> 40) u
      in if before = [] then u else before)"

section \<open>Sample inputs\<close>

text \<open>
  A world to run the program in: \<open>toLowerCase\<close> maps the letters A-Z and nothing else,
  \<open>cleanHtmlTags\<close> changes nothing, every draw of \<open>Math.random\<close> is 0.25, the engine
  sorts an array of two elements with one comparator call and any other array with
  none, and it takes up to 125000 arguments in one call.
\<close>

definition ascii_lower :: "jsstring \<Rightarrow> jsstring" where
  "ascii_lower s = map (\<lambda>c. if 65 \<le> c \<and> c \<le> 90 then c + 32 else c) s"

definition sample_world :: "ApiSite list \<Rightarrow> (nat \<Rightarrow> network) \<Rightarrow> world" where
  "sample_world sites net =
     \<lparr> cleanHtmlTags = (\<lambda>s. s),
       toLowerCase = ascii_lower,
       token = (\<lambda>i j. js ''k3j9x0q1z''),
       getAvailableApiSites = Return sites,
       answer = net,
       random = (\<lambda>k. 0.25),
       engine_sort = (\<lambda>n. if n = 2 then Compare Done Done (Exchange 0 1 Done) else Done),
       spread_limit = 125000 \<rparr>"

definition sample_item :: "string option \<Rightarrow> string option \<Rightarrow> string option \<Rightarrow> string option \<Rightarrow> ApiSearchItem" where
  "sample_item ident nm pic yr =
     \<lparr> vod_id = map_option js ident,
       vod_name = map_option js nm,
       vod_pic = map_option js pic,
       vod_play_url = None,
       vod_class = None,
       vod_year = map_option js yr,
       vod_content = None,
       item_type_name = None \<rparr>"

definition sample_site :: "string \<Rightarrow> ApiSite" where
  "sample_site k = \<lparr> key = js k, name = js k, api = js ''https://example.org'' \<rparr>"

definition sample_response :: "ApiSearchItem list \<Rightarrow> network" where
  "sample_response items = Responds 120 \<lparr> status = 200, json = Return (Items items) \<rparr>"

definition sample_video :: "string \<Rightarrow> string \<Rightarrow> string \<Rightarrow> string \<Rightarrow> VideoResult" where
  "sample_video ident t y src =
     \<lparr> vid = js ident, title = js t, poster = js ''p.jpg'', episodes = [], source = js src,
       source_name = js src, vclass = [], year = js y, desc = [], type_name = [] \<rparr>"

text \<open>
  Two sources. The first answers with four records: the second has no poster, the third
  has the title and the year of the first. The second source fails with a network error.
\<close>

definition demo_items :: "ApiSearchItem list" where
  "demo_items =
     [sample_item (Some ''1'') (Some ''Heat'') (Some ''p.jpg'') (Some ''1995''),
      sample_item (Some ''2'') (Some ''Ronin'') None (Some ''1998''),
      sample_item (Some ''3'') (Some '' HEAT '') (Some ''p.jpg'') (Some ''1995-12-15''),
      sample_item (Some ''4'') (Some ''Ronin'') (Some ''p.jpg'') (Some ''1998'')]"

definition demo_world :: world where
  "demo_world =
     sample_world [sample_site ''a'', sample_site ''b'']
       (\<lambda>i. if i = 0 then sample_response demo_items else Rejects 40 (Error (js ''fetch failed'')))"

text \<open>One source with one record that has a poster and no name.\<close>

definition nameless_world :: world where
  "nameless_world =
     sample_world [sample_site ''a'']
       (\<lambda>i. sample_response [sample_item (Some ''9'') None (Some ''p.jpg'') (Some ''2001'')])"

text \<open>One source that answers with 130000 records, each with a name and a poster.\<close>

definition overflow_items :: "ApiSearchItem list" where
  "overflow_items = replicate 130000 (sample_item (Some ''1'') (Some ''Heat'') (Some ''p.jpg'') (Some ''1995''))"

definition overflow_world :: world where
  "overflow_world = sample_world [sample_site ''a''] (\<lambda>i. sample_response overflow_items)"

text \<open>The playback field of the scenario of the specification.\<close>

definition scenario :: jsstring where
  "scenario = js ''$https://a.com/1.m3u8(CDN1)$$$$https://a.com/1.m3u8(CDN1)$https://a.com/2.m3u8(CDN2)''"

section \<open>Notions used in the proofs\<close>

text \<open>The separator of the groups.\<close>

definition sep :: jsstring where
  "sep = js ''$$$''"

text \<open>No separator begins within the first \<open>n\<close> characters of \<open>s\<close>.\<close>

definition sep_free_upto :: "nat \<Rightarrow> jsstring \<Rightarrow> bool" where
  "sep_free_upto n s = (\<forall>a b. s = a @ sep @ b \<longrightarrow> n \<le> length a)"

text \<open>
  A piece that can be joined and split again: it holds no separator, is not empty and
  does not end with \<open>$\<close>.
\<close>

definition piece :: "jsstring \<Rightarrow> bool" where
  "piece m = (\<not> includes_str m sep \<and> m \<noteq> [] \<and> last m \<noteq> 36)"

section \<open>Unfolding the sample inputs\<close>

lemmas sample_defs =
  sample_world_def sample_item_def sample_site_def sample_response_def ascii_lower_def js_def

lemmas extract_defs =
  extractEpisodes_def js_def split_dollars_def startsWith_def pick_group_def
  match_at_def url_char_def is_space_def new_Set_def set_add_def clean_link_def

section \<open>The year of a record\<close>

lemma match_year_Cons:
  "match_year (c # cs) = (if digit_run_at (c # cs) 0 then Some (take 4 (c # cs)) else match_year cs)"
  by (simp add: digit_run_at_def)

lemma digit_run_at_Suc: "digit_run_at (c # cs) (Suc k) = digit_run_at cs k"
  by (auto simp: digit_run_at_def)

lemma digit_run_at_Nil: "\<not> digit_run_at [] k"
  by (simp add: digit_run_at_def)

lemma match_year_None: "(match_year s = None) = (\<forall>k. \<not> digit_run_at s k)"
proof (induction s)
  case Nil
  show ?case by (simp add: digit_run_at_Nil)
next
  case (Cons c cs)
  show ?case
  proof (cases "digit_run_at (c # cs) 0")
    case True
    then have "match_year (c # cs) \<noteq> None"
      by (simp add: match_year_Cons del: match_year.simps)
    with True show ?thesis by blast
  next
    case False
    then have "match_year (c # cs) = match_year cs"
      by (simp add: match_year_Cons del: match_year.simps)
    moreover have "(\<forall>k. \<not> digit_run_at (c # cs) k) = (\<forall>k. \<not> digit_run_at cs k)"
    proof
      assume a: "\<forall>k. \<not> digit_run_at (c # cs) k"
      show "\<forall>k. \<not> digit_run_at cs k"
      proof
        fix k
        from a have "\<not> digit_run_at (c # cs) (Suc k)" by blast
        then show "\<not> digit_run_at cs k" by (simp add: digit_run_at_Suc)
      qed
    next
      assume a: "\<forall>k. \<not> digit_run_at cs k"
      show "\<forall>k. \<not> digit_run_at (c # cs) k"
      proof
        fix k
        show "\<not> digit_run_at (c # cs) k"
          using a False by (cases k) (simp_all add: digit_run_at_Suc)
      qed
    qed
    ultimately show ?thesis using Cons.IH by simp
  qed
qed

lemma match_year_first:
  "digit_run_at s k \<Longrightarrow> (\<And>k'. k' < k \<Longrightarrow> \<not> digit_run_at s k') \<Longrightarrow>
   match_year s = Some (take 4 (drop k s))"
proof (induction s arbitrary: k)
  case Nil
  then show ?case by (simp add: digit_run_at_Nil)
next
  case (Cons c cs)
  show ?case
  proof (cases k)
    case 0
    with Cons.prems(1) show ?thesis
      by (simp add: match_year_Cons del: match_year.simps)
  next
    case (Suc n)
    with Cons.prems(2) have no0: "\<not> digit_run_at (c # cs) 0" by blast
    have run: "digit_run_at cs n"
      using Cons.prems(1) Suc by (simp add: digit_run_at_Suc)
    have "\<And>k'. k' < n \<Longrightarrow> \<not> digit_run_at cs k'"
    proof -
      fix k'
      assume "k' < n"
      then have "Suc k' < k" using Suc by simp
      then have "\<not> digit_run_at (c # cs) (Suc k')" by (rule Cons.prems(2))
      then show "\<not> digit_run_at cs k'" by (simp add: digit_run_at_Suc)
    qed
    with run have "match_year cs = Some (take 4 (drop n cs))" by (rule Cons.IH)
    moreover have "match_year (c # cs) = match_year cs"
      using no0 by (simp add: match_year_Cons del: match_year.simps)
    ultimately show ?thesis using Suc by (simp del: match_year.simps)
  qed
qed

lemma match_year_shape: "match_year s = Some m \<Longrightarrow> length m = 4 \<and> list_all is_digit m"
  by (induction s) (auto split: if_splits)

lemma year_convertItem: "year (convertItem W i sk sn j item) = normalize_year (vod_year item)"
  by (simp add: convertItem_def)

text \<open>
  C7, as the code has it. The year of a converted record is the first run of four
  digits of the raw year field. It is \<open>unknown\<close> when the field is absent or empty, and
  the empty string when the field is present, not empty and holds no run of four
  digits. So a year is a string of four digits, \<open>unknown\<close> or empty.
\<close>

theorem normalized_year:
  fixes W :: world and i j :: nat and sourceKey sourceName :: jsstring and item :: ApiSearchItem
  defines "y \<equiv> year (convertItem W i sourceKey sourceName j item)"
  shows "(vod_year item = None \<or> vod_year item = Some [] \<longrightarrow> y = js ''unknown'')
    \<and> (\<forall>s k. vod_year item = Some s \<and> digit_run_at s k \<and> (\<forall>k'<k. \<not> digit_run_at s k')
          \<longrightarrow> y = take 4 (drop k s))
    \<and> (\<forall>s. vod_year item = Some s \<and> s \<noteq> [] \<and> (\<forall>k. \<not> digit_run_at s k) \<longrightarrow> y = [])
    \<and> (y = js ''unknown'' \<or> y = [] \<or> (length y = 4 \<and> list_all is_digit y))"
proof (intro conjI allI impI)
  assume "vod_year item = None \<or> vod_year item = Some []"
  then show "y = js ''unknown''"
    by (auto simp: y_def year_convertItem normalize_year_def)
next
  fix s k
  assume a: "vod_year item = Some s \<and> digit_run_at s k \<and> (\<forall>k'<k. \<not> digit_run_at s k')"
  then have "s \<noteq> []" by (auto simp: digit_run_at_Nil)
  moreover from a have "match_year s = Some (take 4 (drop k s))"
    by (intro match_year_first) auto
  moreover from a have "take 4 (drop k s) \<noteq> []" by (auto simp: digit_run_at_def)
  ultimately show "y = take 4 (drop k s)"
    using a by (simp add: y_def year_convertItem normalize_year_def or_else_def)
next
  fix s
  assume a: "vod_year item = Some s \<and> s \<noteq> [] \<and> (\<forall>k. \<not> digit_run_at s k)"
  then have "match_year s = None" by (simp add: match_year_None)
  with a show "y = []"
    by (simp add: y_def year_convertItem normalize_year_def or_else_def)
next
  show "y = js ''unknown'' \<or> y = [] \<or> (length y = 4 \<and> list_all is_digit y)"
    by (auto simp: y_def year_convertItem normalize_year_def or_else_def
        split: option.splits dest: match_year_shape)
qed

theorem normalized_year_witness:
  "year (convertItem (sample_world [] (\<lambda>i. Hangs)) 0 (js ''src'') (js ''Src'') 0
      (sample_item (Some ''7'') (Some ''Film'') (Some ''p.jpg'') (Some ''(2023-05)''))) = js ''2023''
   \<and> year (convertItem (sample_world [] (\<lambda>i. Hangs)) 0 (js ''src'') (js ''Src'') 0
      (sample_item (Some ''7'') (Some ''Film'') (Some ''p.jpg'') None)) = js ''unknown''
   \<and> year (convertItem (sample_world [] (\<lambda>i. Hangs)) 0 (js ''src'') (js ''Src'') 0
      (sample_item (Some ''7'') (Some ''Film'') (Some ''p.jpg'') (Some ''N/A''))) = []"
proof -
  have run: "digit_run_at (js ''(2023-05)'') 1 \<and> (\<forall>k'<1. \<not> digit_run_at (js ''(2023-05)'') k')"
    by (simp add: digit_run_at_def js_def is_digit_def)
  have none: "\<forall>k. \<not> digit_run_at (js ''N/A'') k"
    by (simp add: digit_run_at_def js_def)
  have f1: "vod_year (sample_item (Some ''7'') (Some ''Film'') (Some ''p.jpg'') (Some ''(2023-05)''))
      = Some (js ''(2023-05)'')"
    by (simp add: sample_item_def)
  have f2: "vod_year (sample_item (Some ''7'') (Some ''Film'') (Some ''p.jpg'') None) = None"
    by (simp add: sample_item_def)
  have f3: "vod_year (sample_item (Some ''7'') (Some ''Film'') (Some ''p.jpg'') (Some ''N/A''))
      = Some (js ''N/A'') \<and> js ''N/A'' \<noteq> []"
    by (simp add: sample_item_def js_def)
  have t4: "take 4 (drop 1 (js ''(2023-05)'')) = js ''2023''"
    by (simp add: js_def)
  have y1: "year (convertItem (sample_world [] (\<lambda>i. Hangs)) 0 (js ''src'') (js ''Src'') 0
      (sample_item (Some ''7'') (Some ''Film'') (Some ''p.jpg'') (Some ''(2023-05)'')))
      = take 4 (drop 1 (js ''(2023-05)''))"
    using normalized_year [of "sample_item (Some ''7'') (Some ''Film'') (Some ''p.jpg'') (Some ''(2023-05)'')"
        "sample_world [] (\<lambda>i. Hangs)" 0 "js ''src''" "js ''Src''" 0] f1 run
    by blast
  have y2: "year (convertItem (sample_world [] (\<lambda>i. Hangs)) 0 (js ''src'') (js ''Src'') 0
      (sample_item (Some ''7'') (Some ''Film'') (Some ''p.jpg'') None)) = js ''unknown''"
    using normalized_year [of "sample_item (Some ''7'') (Some ''Film'') (Some ''p.jpg'') None"
        "sample_world [] (\<lambda>i. Hangs)" 0 "js ''src''" "js ''Src''" 0] f2
    by blast
  have y3: "year (convertItem (sample_world [] (\<lambda>i. Hangs)) 0 (js ''src'') (js ''Src'') 0
      (sample_item (Some ''7'') (Some ''Film'') (Some ''p.jpg'') (Some ''N/A''))) = []"
    using normalized_year [of "sample_item (Some ''7'') (Some ''Film'') (Some ''p.jpg'') (Some ''N/A'')"
        "sample_world [] (\<lambda>i. Hangs)" 0 "js ''src''" "js ''Src''" 0] f3 none
    by blast
  show ?thesis using y1 y2 y3 t4 by simp
qed

text \<open>
  C7 as the specification states it fails: a year field that is present and holds no
  run of four digits gives the empty string, not \<open>unknown\<close>.
\<close>

theorem normalized_year_counterexample:
  "match_year (js ''N/A'') = None
   \<and> year (convertItem (sample_world [] (\<lambda>i. Hangs)) 0 (js ''src'') (js ''Src'') 0
        (sample_item (Some ''7'') (Some ''Film'') (Some ''p.jpg'') (Some ''N/A''))) = []
   \<and> year (convertItem (sample_world [] (\<lambda>i. Hangs)) 0 (js ''src'') (js ''Src'') 0
        (sample_item (Some ''7'') (Some ''Film'') (Some ''p.jpg'') (Some ''N/A''))) \<noteq> js ''unknown''"
  by (simp add: year_convertItem normalize_year_def or_else_def sample_defs is_digit_def)

section \<open>The fetch and its caller\<close>

lemma fetchWithTimeout_Return:
  "(fetchWithTimeout net = Return r) = (\<exists>t. t < 8000 \<and> net = Responds t r)"
  by (cases net) (auto simp: fetchWithTimeout_def)

lemma fetchCategory_returns: "\<exists>videos. fetchCategoryVideosFromApi W i sk sn c = Return videos"
  by (simp add: fetchCategoryVideosFromApi_def split: completion.split)

lemma fetchHot_returns: "\<exists>videos. fetchHotVideosFromApi W i sk sn = Return videos"
  by (simp add: fetchHotVideosFromApi_def split: completion.split)

lemma category_absorbs:
  "(\<And>r. fetchWithTimeout (answer W i) = Return r \<Longrightarrow> \<not> ok r) \<Longrightarrow>
   fetchCategoryVideosFromApi W i sk sn c = Return []"
  by (cases "fetchWithTimeout (answer W i)")
    (auto simp: fetchCategoryVideosFromApi_def category_try_def)

lemma hot_absorbs:
  "(\<And>r. fetchWithTimeout (answer W i) = Return r \<Longrightarrow> \<not> ok r) \<Longrightarrow>
   fetchHotVideosFromApi W i sk sn = Return []"
  by (cases "fetchWithTimeout (answer W i)")
    (auto simp: fetchHotVideosFromApi_def hot_try_def)

text \<open>
  C8, as the code has it. \<open>fetchWithTimeout\<close> returns the response exactly when the
  network responds within 8000 ms, whatever the status; a rejection is thrown again, and
  a request that takes 8000 ms or longer throws the abort error. The throw is caught one
  level up: \<open>fetchCategoryVideosFromApi\<close> and \<open>fetchHotVideosFromApi\<close> always return a
  list, and return the empty list when the fetch throws or the status is not 2xx.
\<close>

theorem fetch_rethrows_caller_absorbs:
  "(fetchWithTimeout net = Return r) = (\<exists>t. t < 8000 \<and> net = Responds t r)
   \<and> (\<forall>t e. fetchWithTimeout (Rejects t e) = Throw (if t < 8000 then e else AbortError))
   \<and> (\<forall>t. 8000 \<le> t \<longrightarrow> fetchWithTimeout (Responds t r) = Throw AbortError)
   \<and> fetchWithTimeout Hangs = Throw AbortError
   \<and> (\<exists>videos. fetchCategoryVideosFromApi W i sourceKey sourceName category = Return videos)
   \<and> (\<exists>videos. fetchHotVideosFromApi W i sourceKey sourceName = Return videos)
   \<and> ((\<forall>r'. fetchWithTimeout (answer W i) = Return r' \<longrightarrow> \<not> ok r') \<longrightarrow>
        fetchCategoryVideosFromApi W i sourceKey sourceName category = Return []
        \<and> fetchHotVideosFromApi W i sourceKey sourceName = Return [])"
  using fetchWithTimeout_Return [of net r]
    fetchCategory_returns [of W i sourceKey sourceName category]
    fetchHot_returns [of W i sourceKey sourceName]
    category_absorbs [of W i sourceKey sourceName category]
    hot_absorbs [of W i sourceKey sourceName]
  by (auto simp: fetchWithTimeout_def)

theorem fetch_rethrows_caller_absorbs_witness:
  "fetchWithTimeout (answer (sample_world [] (\<lambda>i. Responds 9000 \<lparr> status = 200, json = Return Falsy \<rparr>)) 0)
     = Throw AbortError
   \<and> fetchCategoryVideosFromApi
        (sample_world [] (\<lambda>i. Responds 9000 \<lparr> status = 200, json = Return Falsy \<rparr>)) 0
        (js ''src'') (js ''Src'') all_categories = Return []
   \<and> fetchHotVideosFromApi
        (sample_world [] (\<lambda>i. Responds 9000 \<lparr> status = 200, json = Return Falsy \<rparr>)) 0
        (js ''src'') (js ''Src'') = Return []"
proof -
  have late: "(8000 :: nat) \<le> 9000" by simp
  have a: "answer (sample_world [] (\<lambda>i. Responds 9000 \<lparr> status = 200, json = Return Falsy \<rparr>)) 0
      = Responds 9000 \<lparr> status = 200, json = Return Falsy \<rparr>"
    by (simp add: sample_world_def)
  have t: "fetchWithTimeout (Responds 9000 \<lparr> status = 200, json = Return Falsy \<rparr>) = Throw AbortError"
    using fetch_rethrows_caller_absorbs
      [of "Responds 9000 \<lparr> status = 200, json = Return Falsy \<rparr>" "\<lparr> status = 200, json = Return Falsy \<rparr>"]
      late
    by blast
  have n: "\<forall>r'. fetchWithTimeout (answer (sample_world [] (\<lambda>i. Responds 9000 \<lparr> status = 200, json = Return Falsy \<rparr>)) 0)
      = Return r' \<longrightarrow> \<not> ok r'"
    using a t by simp
  show ?thesis
    using fetch_rethrows_caller_absorbs
      [of "Hangs" "\<lparr> status = 200, json = Return Falsy \<rparr>"
        "sample_world [] (\<lambda>i. Responds 9000 \<lparr> status = 200, json = Return Falsy \<rparr>)" 0
        "js ''src''" "js ''Src''" all_categories] n a t
    by simp
qed

text \<open>
  C8 as the specification states it fails: a network error is thrown to the caller of
  \<open>fetchWithTimeout\<close>, and so is the abort of a request that takes too long.
\<close>

theorem fetch_counterexample:
  "fetchWithTimeout (Rejects 35 (Error (js ''fetch failed''))) = Throw (Error (js ''fetch failed''))
   \<and> fetchWithTimeout (Responds 9000 \<lparr> status = 200, json = Return (Items []) \<rparr>) = Throw AbortError"
  by (simp add: fetchWithTimeout_def)

section \<open>Sets and maps in insertion order\<close>

lemma set_first_seen: "set (first_seen xs) = set xs"
  by (induction xs) auto

lemma distinct_first_seen: "distinct (first_seen xs)"
  by (induction xs) (auto simp: set_first_seen)

lemma foldl_set_add:
  "foldl set_add acc xs = acc @ filter (\<lambda>y. y \<notin> set acc) (first_seen xs)"
proof (induction xs arbitrary: acc)
  case Nil
  show ?case by simp
next
  case (Cons x xs)
  have step: "foldl set_add acc (x # xs) = foldl set_add (set_add acc x) xs" by simp
  show ?case
  proof (cases "x \<in> set acc")
    case True
    then have same: "set_add acc x = acc" by (simp add: set_add_def)
    have "filter (\<lambda>y. y \<notin> set acc) (filter (\<lambda>y. y \<noteq> x) (first_seen xs))
        = filter (\<lambda>y. y \<notin> set acc) (first_seen xs)"
      using True by (auto intro: filter_cong)
    then have "filter (\<lambda>y. y \<notin> set acc) (first_seen (x # xs))
        = filter (\<lambda>y. y \<notin> set acc) (first_seen xs)"
      using True by simp
    then show ?thesis
      using Cons.IH [of acc] by (simp only: step same)
  next
    case False
    then have more: "set_add acc x = acc @ [x]" by (simp add: set_add_def)
    have "filter (\<lambda>y. y \<notin> set (acc @ [x])) (first_seen xs)
        = filter (\<lambda>y. y \<notin> set acc) (filter (\<lambda>y. y \<noteq> x) (first_seen xs))"
      by (auto intro: filter_cong)
    then have "(acc @ [x]) @ filter (\<lambda>y. y \<notin> set (acc @ [x])) (first_seen xs)
        = acc @ filter (\<lambda>y. y \<notin> set acc) (first_seen (x # xs))"
      using False by simp
    then show ?thesis
      using Cons.IH [of "acc @ [x]"] by (simp only: step more)
  qed
qed

lemma new_Set_first_seen: "new_Set xs = first_seen xs"
  by (simp add: new_Set_def foldl_set_add)

lemma keys_map_set: "map fst (map_set m k v) = set_add (map fst m) k"
  by (induction m k v rule: map_set.induct) (auto simp: set_add_def)

lemma map_of_map_set: "map_of (map_set m k v) = (map_of m)(k \<mapsto> v)"
  by (induction m k v rule: map_set.induct) (auto simp: fun_eq_iff)

lemma keys_foldl_map_set:
  "map fst (foldl (\<lambda>m (k, v). map_set m k v) m es) = foldl set_add (map fst m) (map fst es)"
proof (induction es arbitrary: m)
  case Nil
  show ?case by simp
next
  case (Cons e es)
  obtain k v where e: "e = (k, v)" by (cases e)
  have "map fst (foldl (\<lambda>m (k, v). map_set m k v) m (e # es))
      = map fst (foldl (\<lambda>m (k, v). map_set m k v) (map_set m k v) es)"
    by (simp add: e)
  also have "\<dots> = foldl set_add (map fst (map_set m k v)) (map fst es)"
    by (rule Cons.IH)
  also have "\<dots> = foldl set_add (map fst m) (map fst (e # es))"
    by (simp add: keys_map_set e)
  finally show ?case .
qed

lemma map_of_foldl_map_set:
  "map_of (foldl (\<lambda>m (k, v). map_set m k v) m es) = map_of m ++ map_of (rev es)"
proof (induction es arbitrary: m)
  case Nil
  show ?case by simp
next
  case (Cons e es)
  obtain k v where e: "e = (k, v)" by (cases e)
  have "map_of (foldl (\<lambda>m (k, v). map_set m k v) m (e # es))
      = map_of (foldl (\<lambda>m (k, v). map_set m k v) (map_set m k v) es)"
    by (simp add: e)
  also have "\<dots> = map_of (map_set m k v) ++ map_of (rev es)"
    by (rule Cons.IH)
  also have "\<dots> = (map_of m)(k \<mapsto> v) ++ map_of (rev es)"
    by (simp only: map_of_map_set)
  also have "\<dots> = map_of m ++ map_of (rev (e # es))"
    by (auto simp: e fun_eq_iff map_add_def split: option.splits)
  finally show ?case .
qed

lemma keys_new_Map: "map fst (new_Map es) = first_seen (map fst es)"
  by (simp add: new_Map_def keys_foldl_map_set foldl_set_add)

lemma map_of_new_Map: "map_of (new_Map es) = map_of (rev es)"
  by (simp add: new_Map_def map_of_foldl_map_set)

lemma values_by_keys:
  "distinct (map fst m) \<Longrightarrow> map snd m = map (\<lambda>k. the (map_of m k)) (map fst m)"
proof (induction m)
  case Nil
  show ?case by simp
next
  case (Cons e m)
  obtain k v where e: "e = (k, v)" by (cases e)
  from Cons.prems have fresh: "k \<notin> fst ` set m" and d: "distinct (map fst m)"
    by (simp_all add: e)
  have "map (\<lambda>k'. the (map_of (e # m) k')) (map fst m) = map (\<lambda>k'. the (map_of m k')) (map fst m)"
  proof (rule map_cong [OF refl])
    fix k' assume "k' \<in> set (map fst m)"
    with fresh have "k' \<noteq> k" by auto
    then show "the (map_of (e # m) k') = the (map_of m k')" by (simp add: e)
  qed
  with Cons.IH [OF d] show ?case by (simp add: e)
qed

lemma map_of_rev_entries:
  "k \<in> keyOf ` set xs \<Longrightarrow>
   map_of (rev (map (\<lambda>v. (keyOf v, v)) xs)) k = Some (last (filter (\<lambda>v. keyOf v = k) xs))"
proof (induction xs rule: rev_induct)
  case Nil
  then show ?case by simp
next
  case (snoc x xs)
  show ?case
  proof (cases "keyOf x = k")
    case True
    then show ?thesis by simp
  next
    case False
    with snoc.prems have "k \<in> keyOf ` set xs" by auto
    then show ?thesis using False snoc.IH by simp
  qed
qed

lemma uniqueBy_characterisation:
  "uniqueBy keyOf xs
     = map (\<lambda>k. last (filter (\<lambda>v. keyOf v = k) xs)) (first_seen (map keyOf xs))"
proof -
  let ?es = "map (\<lambda>v. (keyOf v, v)) xs"
  have keys: "map fst (new_Map ?es) = first_seen (map keyOf xs)"
    by (simp add: keys_new_Map comp_def)
  then have d: "distinct (map fst (new_Map ?es))" by (simp add: distinct_first_seen)
  have "uniqueBy keyOf xs = map (\<lambda>k. the (map_of (new_Map ?es) k)) (first_seen (map keyOf xs))"
    using values_by_keys [OF d] keys by (simp add: uniqueBy_def map_values_def)
  also have "\<dots> = map (\<lambda>k. last (filter (\<lambda>v. keyOf v = k) xs)) (first_seen (map keyOf xs))"
  proof (rule map_cong [OF refl])
    fix k assume "k \<in> set (first_seen (map keyOf xs))"
    then have "k \<in> keyOf ` set xs" by (simp add: set_first_seen)
    then show "the (map_of (new_Map ?es) k) = last (filter (\<lambda>v. keyOf v = k) xs)"
      by (simp add: map_of_new_Map map_of_rev_entries)
  qed
  finally show ?thesis .
qed

lemma keys_uniqueBy: "map keyOf (uniqueBy keyOf xs) = first_seen (map keyOf xs)"
proof -
  have "map keyOf (uniqueBy keyOf xs)
      = map (\<lambda>k. keyOf (last (filter (\<lambda>v. keyOf v = k) xs))) (first_seen (map keyOf xs))"
    by (simp add: uniqueBy_characterisation comp_def)
  also have "\<dots> = map (\<lambda>k. k) (first_seen (map keyOf xs))"
  proof (rule map_cong [OF refl])
    fix k assume "k \<in> set (first_seen (map keyOf xs))"
    then have "filter (\<lambda>v. keyOf v = k) xs \<noteq> []"
      by (auto simp: set_first_seen filter_empty_conv)
    then have "last (filter (\<lambda>v. keyOf v = k) xs) \<in> set (filter (\<lambda>v. keyOf v = k) xs)"
      by (rule last_in_set)
    then show "keyOf (last (filter (\<lambda>v. keyOf v = k) xs)) = k" by simp
  qed
  finally show ?thesis by simp
qed

lemma distinct_keys_uniqueBy: "distinct (map keyOf (uniqueBy keyOf xs))"
  by (simp add: keys_uniqueBy distinct_first_seen)

lemma last_filter_key:
  assumes "k \<in> keyOf ` set xs"
  shows "last (filter (\<lambda>v. keyOf v = k) xs) \<in> set xs \<and> keyOf (last (filter (\<lambda>v. keyOf v = k) xs)) = k"
proof -
  from assms have "filter (\<lambda>v. keyOf v = k) xs \<noteq> []" by (auto simp: filter_empty_conv)
  then have "last (filter (\<lambda>v. keyOf v = k) xs) \<in> set (filter (\<lambda>v. keyOf v = k) xs)"
    by (rule last_in_set)
  then show ?thesis by simp
qed

lemma set_uniqueBy:
  "set (uniqueBy keyOf xs) = (\<lambda>k. last (filter (\<lambda>v. keyOf v = k) xs)) ` keyOf ` set xs"
  by (simp add: uniqueBy_characterisation set_first_seen)

lemma set_uniqueBy_subset: "set (uniqueBy keyOf xs) \<subseteq> set xs"
proof
  fix v assume "v \<in> set (uniqueBy keyOf xs)"
  then obtain k where k: "k \<in> keyOf ` set xs" and v: "v = last (filter (\<lambda>v. keyOf v = k) xs)"
    unfolding set_uniqueBy by blast
  from last_filter_key [OF k] v show "v \<in> set xs" by simp
qed

lemma unique_key_retained:
  assumes "v \<in> set xs" and "\<And>u. u \<in> set xs \<Longrightarrow> keyOf u = keyOf v \<Longrightarrow> u = v"
  shows "v \<in> set (uniqueBy keyOf xs)"
proof -
  have k: "keyOf v \<in> keyOf ` set xs" using assms(1) by blast
  from last_filter_key [OF k] assms(2)
  have "last (filter (\<lambda>u. keyOf u = keyOf v) xs) = v" by blast
  with k show ?thesis unfolding set_uniqueBy by (metis imageI)
qed

lemma category_key_sources:
  assumes "toLowerCase W (title a) = toLowerCase W (title b)" and "year a = year b"
  shows "(category_key W a = category_key W b) = (source a = source b)"
  unfolding category_key_def assms by simp

lemma hot_key_classes:
  assumes "toLowerCase W (title a) = toLowerCase W (title b)" and "year a = year b"
  shows "(hot_key W a = hot_key W b) = (vclass a = vclass b)"
  unfolding hot_key_def assms by simp

text \<open>
  C2, as the code has it. The deduplicated sequence has one record for every key, in the
  order in which the keys are first seen; the record kept for a key is the last one of
  the working set with that key (\<open>Map.set\<close> replaces the value of a key that is present
  and leaves the entry at its place). Records with the same title in lower case and the
  same year from different sources have different keys, and a record whose key no other
  record has is kept.
\<close>

theorem dedup_last_seen:
  "uniqueBy (category_key W) allVideos
     = map (\<lambda>k. last (filter (\<lambda>v. category_key W v = k) allVideos))
         (first_seen (map (category_key W) allVideos))
   \<and> (\<forall>a b. toLowerCase W (title a) = toLowerCase W (title b) \<and> year a = year b \<and> source a \<noteq> source b
        \<longrightarrow> category_key W a \<noteq> category_key W b)
   \<and> (\<forall>v \<in> set allVideos. (\<forall>u \<in> set allVideos. category_key W u = category_key W v \<longrightarrow> u = v)
        \<longrightarrow> v \<in> set (uniqueBy (category_key W) allVideos))"
proof (intro conjI allI impI ballI)
  show "uniqueBy (category_key W) allVideos
     = map (\<lambda>k. last (filter (\<lambda>v. category_key W v = k) allVideos))
         (first_seen (map (category_key W) allVideos))"
    by (rule uniqueBy_characterisation)
next
  fix a b :: VideoResult
  assume "toLowerCase W (title a) = toLowerCase W (title b) \<and> year a = year b \<and> source a \<noteq> source b"
  then show "category_key W a \<noteq> category_key W b"
    using category_key_sources [of W a b] by blast
next
  fix v
  assume "v \<in> set allVideos"
    and "\<forall>u \<in> set allVideos. category_key W u = category_key W v \<longrightarrow> u = v"
  then show "v \<in> set (uniqueBy (category_key W) allVideos)"
    by (intro unique_key_retained) auto
qed

theorem dedup_last_seen_witness:
  "map vid (uniqueBy (category_key (sample_world [] (\<lambda>i. Hangs)))
      [sample_video ''1'' ''Heat'' ''1995'' ''a'', sample_video ''3'' ''Heat'' ''1995'' ''b'',
       sample_video ''2'' ''HEAT'' ''1995'' ''a''])
     = [js ''2'', js ''3'']
   \<and> category_key (sample_world [] (\<lambda>i. Hangs)) (sample_video ''1'' ''Heat'' ''1995'' ''a'')
     \<noteq> category_key (sample_world [] (\<lambda>i. Hangs)) (sample_video ''3'' ''Heat'' ''1995'' ''b'')
   \<and> sample_video ''3'' ''Heat'' ''1995'' ''b'' \<in> set (uniqueBy (category_key (sample_world [] (\<lambda>i. Hangs)))
      [sample_video ''1'' ''Heat'' ''1995'' ''a'', sample_video ''3'' ''Heat'' ''1995'' ''b'',
       sample_video ''2'' ''HEAT'' ''1995'' ''a''])"
proof -
  let ?W = "sample_world [] (\<lambda>i. Hangs)"
  let ?a = "sample_video ''1'' ''Heat'' ''1995'' ''a''"
  let ?b = "sample_video ''3'' ''Heat'' ''1995'' ''b''"
  let ?c = "sample_video ''2'' ''HEAT'' ''1995'' ''a''"
  note T = dedup_last_seen [of ?W "[?a, ?b, ?c]"]
  have keys: "category_key ?W ?a = js ''heat-1995-a'' \<and> category_key ?W ?b = js ''heat-1995-b''
      \<and> category_key ?W ?c = js ''heat-1995-a''"
    by (simp add: category_key_def sample_video_def sample_defs)
  have ne: "js ''heat-1995-a'' \<noteq> js ''heat-1995-b''" by (simp add: js_def)
  have "uniqueBy (category_key ?W) [?a, ?b, ?c] = [?c, ?b]"
    using T keys ne by simp
  then have one: "map vid (uniqueBy (category_key ?W) [?a, ?b, ?c]) = [js ''2'', js ''3'']"
    by (simp add: sample_video_def)
  have hyp2: "toLowerCase ?W (title ?a) = toLowerCase ?W (title ?b) \<and> year ?a = year ?b \<and> source ?a \<noteq> source ?b"
    by (simp add: sample_video_def sample_defs)
  with T have two: "category_key ?W ?a \<noteq> category_key ?W ?b" by blast
  have hyp3: "?b \<in> set [?a, ?b, ?c] \<and> (\<forall>u \<in> set [?a, ?b, ?c]. category_key ?W u = category_key ?W ?b \<longrightarrow> u = ?b)"
    using keys ne by simp
  with T have three: "?b \<in> set (uniqueBy (category_key ?W) [?a, ?b, ?c])" by blast
  show ?thesis using one two three by blast
qed

text \<open>
  C2 as the specification states it fails: of two records with the same key the second
  is kept, not the one seen first.
\<close>

theorem dedup_counterexample:
  "category_key (sample_world [] (\<lambda>i. Hangs)) (sample_video ''1'' ''Heat'' ''1995'' ''a'')
     = category_key (sample_world [] (\<lambda>i. Hangs)) (sample_video ''2'' ''HEAT'' ''1995'' ''a'')
   \<and> map vid (uniqueBy (category_key (sample_world [] (\<lambda>i. Hangs)))
        [sample_video ''1'' ''Heat'' ''1995'' ''a'', sample_video ''2'' ''HEAT'' ''1995'' ''a''])
     = [js ''2'']"
  by (simp add: uniqueBy_def new_Map_def map_values_def category_key_def sample_video_def sample_defs)

section \<open>The random order\<close>

lemma mset_exchange: "mset (exchange i j xs) = mset xs"
  using mset_swap [of j xs i] by (simp add: exchange_def)

lemma mset_run_plan: "mset (run_plan p rnd k xs) = mset xs"
  by (induction p rnd k xs rule: run_plan.induct) (simp_all add: mset_exchange Let_def)

lemma mset_sort_random: "mset (sort_random W xs) = mset xs"
  by (simp add: sort_random_def mset_run_plan)

lemma set_sort_random: "set (sort_random W xs) = set xs"
  using mset_sort_random [of W xs] by (rule mset_eq_setD)

lemma length_sort_random: "length (sort_random W xs) = length xs"
  using mset_sort_random [of W xs] by (rule mset_eq_length)

text \<open>
  C10. Whatever the comparator answers and whatever plan of comparator calls and
  exchanges the engine follows, the sorted array holds the same records as before, each
  as often as before: none is lost and none is duplicated.
\<close>

theorem shuffle_is_permutation:
  "mset (sort_random W xs) = mset xs
   \<and> length (sort_random W xs) = length xs
   \<and> set (sort_random W xs) = set xs"
  by (simp add: mset_sort_random set_sort_random length_sort_random)

theorem shuffle_is_permutation_witness:
  "sort_random (sample_world [] (\<lambda>i. Hangs)) [1, 2 :: nat] = [2, 1]
   \<and> mset (sort_random (sample_world [] (\<lambda>i. Hangs)) [1, 2 :: nat]) = mset [1, 2]"
proof -
  have "sort_random (sample_world [] (\<lambda>i. Hangs)) [1, 2 :: nat] = [2, 1]"
    by (simp add: sort_random_def sample_world_def comparator_def exchange_def)
  then show ?thesis
    using shuffle_is_permutation [of "sample_world [] (\<lambda>i. Hangs)" "[1, 2 :: nat]"] by simp
qed

section \<open>Pages\<close>

lemma slice_page:
  "0 \<le> start \<Longrightarrow> 0 \<le> start + limit \<Longrightarrow>
   slice xs (Num start) (js_add (Num start) (Num limit)) = page_of xs start limit"
  by (auto simp: slice_def page_of_def Let_def max_def min_def nat_diff_distrib
      intro!: arg_cong2 [where f = take])

lemma slice_beyond: "int (length xs) \<le> start \<Longrightarrow> slice xs (Num start) e = []"
  by (cases e) (auto simp: slice_def Let_def)

lemma list_GET_category:
  "getAvailableApiSites W = Return sites \<Longrightarrow> sites \<noteq> [] \<Longrightarrow>
   list (GET_category W c l s)
     = (case category_allVideos W sites (or_else c all_categories) of
          Throw e \<Rightarrow> []
        | Return allVideos \<Rightarrow>
            slice (sort_random W (uniqueBy (category_key W) allVideos)) s (js_add s l))"
  by (simp add: GET_category_def Let_def split: completion.split)

lemma list_GET_hot:
  "getAvailableApiSites W = Return sites \<Longrightarrow> sites \<noteq> [] \<Longrightarrow>
   list (GET_hot W l s)
     = (case hot_allVideos W sites of
          Throw e \<Rightarrow> []
        | Return allVideos \<Rightarrow>
            slice (sort_random W (uniqueBy (hot_key W) allVideos)) s (js_add s l))"
  by (simp add: GET_hot_def Let_def split: completion.split)

lemma list_GET_category_cases:
  "list (GET_category W c l s) = []
   \<or> (\<exists>sites allVideos.
        category_allVideos W sites (or_else c all_categories) = Return allVideos
        \<and> list (GET_category W c l s)
            = slice (sort_random W (uniqueBy (category_key W) allVideos)) s (js_add s l))"
  by (cases "getAvailableApiSites W")
    (auto simp: GET_category_def Let_def split: completion.split)

lemma list_GET_hot_cases:
  "list (GET_hot W l s) = []
   \<or> (\<exists>sites allVideos.
        hot_allVideos W sites = Return allVideos
        \<and> list (GET_hot W l s)
            = slice (sort_random W (uniqueBy (hot_key W) allVideos)) s (js_add s l))"
  by (cases "getAvailableApiSites W")
    (auto simp: GET_hot_def Let_def split: completion.split)

lemma distinct_map_sort_random:
  "distinct (map f xs) \<Longrightarrow> distinct (map f (sort_random W xs))"
proof -
  assume d: "distinct (map f xs)"
  have "mset (map f (sort_random W xs)) = mset (map f xs)"
    by (simp add: mset_sort_random)
  then show ?thesis using d by (metis mset_eq_imp_distinct_iff)
qed

lemma distinct_map_slice: "distinct (map f xs) \<Longrightarrow> distinct (map f (slice xs a b))"
  by (simp add: slice_def Let_def take_map [symmetric] drop_map [symmetric] distinct_take distinct_drop del: take_map drop_map)

lemma distinct_keys_page:
  "distinct (map keyOf (slice (sort_random W (uniqueBy keyOf xs)) a b))"
  by (intro distinct_map_slice distinct_map_sort_random distinct_keys_uniqueBy)

lemma distinct_keys_GET_category: "distinct (map (category_key W) (list (GET_category W c l s)))"
  using list_GET_category_cases [of W c l s] by (auto simp: distinct_keys_page)

lemma distinct_keys_GET_hot: "distinct (map (hot_key W) (list (GET_hot W l s)))"
  using list_GET_hot_cases [of W l s] by (auto simp: distinct_keys_page)

lemma distinct_map_nth:
  "distinct (map f xs) \<Longrightarrow> i < j \<Longrightarrow> j < length xs \<Longrightarrow> f (xs ! i) \<noteq> f (xs ! j)"
proof -
  assume d: "distinct (map f xs)" and ij: "i < j" and j: "j < length xs"
  from ij j have "i < length (map f xs)" and "j < length (map f xs)" and "i \<noteq> j" by simp_all
  with d have "map f xs ! i \<noteq> map f xs ! j"
    unfolding distinct_conv_nth by blast
  then show ?thesis using ij j by simp
qed

section \<open>Records that are emitted\<close>

lemma or_else_nonempty: "d \<noteq> [] \<Longrightarrow> or_else x d \<noteq> []"
  by (simp add: or_else_def split: option.split)

lemma or_else_empty: "(or_else x [] = []) = (x = None \<or> x = Some [])"
  by (simp add: or_else_def split: option.split)

lemma title_convertItem: "title (convertItem W i sk sn j item) \<noteq> []"
  by (simp add: convertItem_def or_else_nonempty unknown_title_def)

lemma valid_convertItem:
  "valid_video (convertItem W i sk sn j item) = (vod_pic item \<noteq> None \<and> vod_pic item \<noteq> Some [])"
  using title_convertItem [of W i sk sn j item]
  by (simp add: valid_video_def) (simp add: convertItem_def or_else_empty)

lemma convertList_filter:
  "convertList W i sk sn items
     = map (\<lambda>(j, item). convertItem W i sk sn j item)
         (filter (\<lambda>(j, item). vod_pic item \<noteq> None \<and> vod_pic item \<noteq> Some []) (enumerate 0 items))"
  by (simp add: convertList_def filter_map comp_def split_def valid_convertItem)

lemma valid_convertList: "v \<in> set (convertList W i sk sn items) \<Longrightarrow> valid_video v"
  by (simp add: convertList_def)

lemma valid_fetchCategory:
  "fetchCategoryVideosFromApi W i sk sn c = Return vs \<Longrightarrow> v \<in> set vs \<Longrightarrow> valid_video v"
  by (auto simp: fetchCategoryVideosFromApi_def category_try_def Let_def valid_convertList
      split: completion.splits if_splits payload.splits)

lemma valid_fetchHot:
  "fetchHotVideosFromApi W i sk sn = Return vs \<Longrightarrow> v \<in> set vs \<Longrightarrow> valid_video v"
  by (auto simp: fetchHotVideosFromApi_def hot_try_def Let_def valid_convertList
      split: completion.splits if_splits payload.splits)

lemma forEach_push_map:
  "forEach_push W acc (map f xs)
     = (if list_ex (\<lambda>x. case f x of Return v \<Rightarrow> spread_limit W < length v | Throw e \<Rightarrow> False) xs
        then Throw range_error
        else Return (acc @ concat (map (\<lambda>x. case f x of Return v \<Rightarrow> v | Throw e \<Rightarrow> []) xs)))"
  by (induction xs arbitrary: acc) (auto simp: push_settled_def split: completion.split)

lemma valid_category_allVideos:
  "category_allVideos W sites c = Return vs \<Longrightarrow> v \<in> set vs \<Longrightarrow> valid_video v"
  by (auto simp: category_allVideos_def forEach_push_map split: completion.splits if_splits
      dest: valid_fetchCategory [OF sym])

lemma valid_hot_allVideos:
  "hot_allVideos W sites = Return vs \<Longrightarrow> v \<in> set vs \<Longrightarrow> valid_video v"
  by (auto simp: hot_allVideos_def forEach_push_map split: completion.splits if_splits
      dest: valid_fetchHot [OF sym])

lemma set_slice_subset: "set (slice xs a b) \<subseteq> set xs"
proof -
  have "set (slice xs a b) \<subseteq> set (drop (slice_position (length xs) a) xs)"
    unfolding slice_def Let_def by (rule set_take_subset)
  also have "\<dots> \<subseteq> set xs" by (rule set_drop_subset)
  finally show ?thesis .
qed

lemma set_page_subset: "set (slice (sort_random W (uniqueBy keyOf xs)) a b) \<subseteq> set xs"
proof -
  have "set (slice (sort_random W (uniqueBy keyOf xs)) a b) \<subseteq> set (sort_random W (uniqueBy keyOf xs))"
    by (rule set_slice_subset)
  also have "\<dots> = set (uniqueBy keyOf xs)" by (rule set_sort_random)
  also have "\<dots> \<subseteq> set xs" by (rule set_uniqueBy_subset)
  finally show ?thesis .
qed

lemma valid_GET_category: "v \<in> set (list (GET_category W c l s)) \<Longrightarrow> valid_video v"
proof -
  assume v: "v \<in> set (list (GET_category W c l s))"
  then have "list (GET_category W c l s) \<noteq> []" by auto
  with list_GET_category_cases [of W c l s] obtain sites allVideos
    where a: "category_allVideos W sites (or_else c all_categories) = Return allVideos"
      and p: "list (GET_category W c l s)
                = slice (sort_random W (uniqueBy (category_key W) allVideos)) s (js_add s l)"
    by blast
  from v p set_page_subset [of W "category_key W" allVideos s "js_add s l"]
  have "v \<in> set allVideos" by auto
  with a show ?thesis by (rule valid_category_allVideos)
qed

lemma valid_GET_hot: "v \<in> set (list (GET_hot W l s)) \<Longrightarrow> valid_video v"
proof -
  assume v: "v \<in> set (list (GET_hot W l s))"
  then have "list (GET_hot W l s) \<noteq> []" by auto
  with list_GET_hot_cases [of W l s] obtain sites allVideos
    where a: "hot_allVideos W sites = Return allVideos"
      and p: "list (GET_hot W l s)
                = slice (sort_random W (uniqueBy (hot_key W) allVideos)) s (js_add s l)"
    by blast
  from v p set_page_subset [of W "hot_key W" allVideos s "js_add s l"]
  have "v \<in> set allVideos" by auto
  with a show ?thesis by (rule valid_hot_allVideos)
qed

section \<open>The title of a record\<close>

lemma join_spaces_Cons: "ws \<noteq> [] \<Longrightarrow> join_spaces (w # ws) = w @ 32 # join_spaces ws"
  by (cases ws) simp_all

lemma words_from_blank: "list_all is_space sp \<Longrightarrow> words_from cur sp = (if cur = [] then [] else [cur])"
  by (induction sp arbitrary: cur) auto

lemma words_from_leading: "list_all is_space sp \<Longrightarrow> words_from [] (sp @ s) = words_from [] s"
  by (induction sp) auto

lemma words_from_trailing: "list_all is_space sp \<Longrightarrow> words_from cur (s @ sp) = words_from cur s"
  by (induction s arbitrary: cur) (auto simp: words_from_blank)

lemma words_from_Nil_iff: "(words_from cur s = []) = (cur = [] \<and> list_all is_space s)"
  by (induction s arbitrary: cur) auto

lemma trim_decompose:
  "\<exists>sp1 sp2. list_all is_space sp1 \<and> list_all is_space sp2 \<and> s = sp1 @ trim s @ sp2"
proof -
  let ?u = "dropWhile is_space s"
  have "s = takeWhile is_space s @ ?u" by simp
  moreover have "?u = trim s @ rev (takeWhile is_space (rev ?u))"
  proof -
    have "trim s @ rev (takeWhile is_space (rev ?u))
        = rev (takeWhile is_space (rev ?u) @ dropWhile is_space (rev ?u))"
      unfolding trim_def by (simp only: rev_append)
    also have "\<dots> = rev (rev ?u)" by (simp only: takeWhile_dropWhile_id)
    finally show ?thesis by simp
  qed
  ultimately have "s = takeWhile is_space s @ trim s @ rev (takeWhile is_space (rev ?u))" by simp
  moreover have "list_all is_space (takeWhile is_space s)"
    by (simp add: list_all_iff) (metis set_takeWhileD)
  moreover have "list_all is_space (rev (takeWhile is_space (rev ?u)))"
    by (simp add: list_all_iff) (metis set_takeWhileD)
  ultimately show ?thesis by blast
qed

lemma words_of_trim: "words_of (trim s) = words_of s"
proof -
  from trim_decompose [of s] obtain sp1 sp2 where sp: "list_all is_space sp1" "list_all is_space sp2"
    and s: "s = sp1 @ trim s @ sp2"
    by blast
  have "words_of s = words_from [] (sp1 @ trim s @ sp2)" unfolding words_of_def using s by simp
  also have "\<dots> = words_from [] (trim s @ sp2)" using sp(1) by (rule words_from_leading)
  also have "\<dots> = words_from [] (trim s)" using sp(2) by (rule words_from_trailing)
  finally show ?thesis unfolding words_of_def by simp
qed

lemma trim_ends:
  "trim s = [] \<or> (\<not> is_space (hd (trim s)) \<and> \<not> is_space (last (trim s)))"
proof (cases "trim s = []")
  case True
  then show ?thesis ..
next
  case False
  let ?u = "dropWhile is_space s"
  let ?v = "dropWhile is_space (rev ?u)"
  from False have v: "?v \<noteq> []" by (simp add: trim_def)
  have u: "?u \<noteq> []"
  proof
    assume e: "?u = []"
    have "?v = []" unfolding e by simp
    with v show False ..
  qed
  have "last (trim s) = hd ?v" unfolding trim_def using v by (simp add: last_rev)
  moreover have "\<not> is_space (hd ?v)" using v by (rule hd_dropWhile)
  moreover have "hd (trim s) = last ?v" unfolding trim_def using v by (simp add: hd_rev)
  moreover have "last ?v = last (rev ?u)"
  proof -
    have "rev ?u = takeWhile is_space (rev ?u) @ ?v" by simp
    then have "last (rev ?u) = last (takeWhile is_space (rev ?u) @ ?v)" by (rule arg_cong)
    also have "\<dots> = last ?v" using v by (rule last_appendR)
    finally show ?thesis by simp
  qed
  moreover have "last (rev ?u) = hd ?u" using u by (simp add: last_rev)
  moreover have "\<not> is_space (hd ?u)" using u by (rule hd_dropWhile)
  ultimately show ?thesis by simp
qed

lemma collapse_ws_words:
  "s = [] \<or> \<not> is_space (last s) \<Longrightarrow> cur \<noteq> [] \<or> s = [] \<or> \<not> is_space (hd s) \<Longrightarrow>
   join_spaces (words_from cur s) = cur @ collapse_ws s"
proof (induction s arbitrary: cur rule: collapse_ws.induct)
  case 1
  show ?case by simp
next
  case (2 c cs)
  show ?case
  proof (cases "is_space c")
    case True
    with "2.prems"(2) have cur: "cur \<noteq> []" by simp
    let ?r = "dropWhile is_space cs"
    from "2.prems"(1) True have cs: "cs \<noteq> []" by auto
    with "2.prems"(1) have lc: "\<not> is_space (last cs)" by simp
    have r: "?r \<noteq> []"
    proof
      assume "?r = []"
      then have "\<forall>x \<in> set cs. is_space x" by (simp add: dropWhile_eq_Nil_conv)
      with cs lc show False using last_in_set by blast
    qed
    have "cs = takeWhile is_space cs @ ?r" by simp
    then have lr: "last ?r = last cs" using r by (metis last_appendR)
    have hr: "\<not> is_space (hd ?r)" using r by (rule hd_dropWhile)
    have ih: "join_spaces (words_from [] ?r) = [] @ collapse_ws ?r"
      using True
    proof (rule "2.IH"(1))
      show "?r = [] \<or> \<not> is_space (last ?r)" using lr lc by simp
      show "[] \<noteq> ([] :: jsstring) \<or> ?r = [] \<or> \<not> is_space (hd ?r)" using hr by simp
    qed
    have "list_all is_space (takeWhile is_space cs)"
      by (simp add: list_all_iff) (metis set_takeWhileD)
    then have "words_from [] (takeWhile is_space cs @ ?r) = words_from [] ?r"
      by (rule words_from_leading)
    then have w: "words_from [] cs = words_from [] ?r" by simp
    have wn: "words_from [] ?r \<noteq> []"
    proof
      assume "words_from [] ?r = []"
      then have "list_all is_space ?r" unfolding words_from_Nil_iff by simp
      with r hr show False by (cases ?r) simp_all
    qed
    have "join_spaces (words_from cur (c # cs)) = join_spaces (cur # words_from [] ?r)"
      using True cur w by simp
    also have "\<dots> = cur @ 32 # join_spaces (words_from [] ?r)"
      using wn by (rule join_spaces_Cons)
    also have "\<dots> = cur @ 32 # collapse_ws ?r" using ih by simp
    finally show ?thesis using True by simp
  next
    case False
    have "join_spaces (words_from (cur @ [c]) cs) = (cur @ [c]) @ collapse_ws cs"
      using False
    proof (rule "2.IH"(2))
      show "cs = [] \<or> \<not> is_space (last cs)" using "2.prems"(1) by (cases cs) auto
      show "cur @ [c] \<noteq> [] \<or> cs = [] \<or> \<not> is_space (hd cs)" by simp
    qed
    then show ?thesis using False by simp
  qed
qed

lemma title_words: "collapse_ws (trim s) = join_spaces (words_of s)"
proof -
  have "join_spaces (words_from [] (trim s)) = [] @ collapse_ws (trim s)"
    using trim_ends [of s] by (intro collapse_ws_words) auto
  then show ?thesis using words_of_trim [of s] by (simp add: words_of_def)
qed

lemma words_of_Nil_iff: "(words_of s = []) = list_all is_space s"
  by (simp add: words_of_def words_from_Nil_iff)

lemma collapse_ws_Nil_iff: "(collapse_ws s = []) = (s = [])"
  by (cases s) simp_all

lemma trim_Nil_iff: "(trim s = []) = list_all is_space s"
proof
  assume "trim s = []"
  with trim_decompose [of s] show "list_all is_space s" by (metis append_Nil list_all_append)
next
  assume "list_all is_space s"
  then have e: "dropWhile is_space s = []" by (simp add: dropWhile_eq_Nil_conv list_all_iff)
  show "trim s = []" unfolding trim_def e by simp
qed

lemma title_of_name:
  "vod_name item = Some s \<Longrightarrow>
   title (convertItem W i sk sn j item)
     = (if list_all is_space s then unknown_title else join_spaces (words_of s))"
  using title_words [of s] trim_Nil_iff [of s] collapse_ws_Nil_iff [of "trim s"]
  by (auto simp: convertItem_def or_else_def)


section \<open>Sources that fail and sources that survive\<close>

lemma fails_category:
  "source_fails W i \<Longrightarrow> fetchCategoryVideosFromApi W i sk sn c = Return []"
  by (auto simp: source_fails_def fetchCategoryVideosFromApi_def category_try_def fetchWithTimeout_def
      split: network.splits completion.splits payload.splits if_splits)

lemma fails_hot:
  "source_fails W i \<Longrightarrow> fetchHotVideosFromApi W i sk sn = Return []"
  by (auto simp: source_fails_def fetchHotVideosFromApi_def hot_try_def fetchWithTimeout_def
      split: network.splits completion.splits payload.splits if_splits)

lemma convertList_Nil: "convertList W i sk sn [] = []"
  by (simp add: convertList_def)

lemma survives_hot:
  "\<not> source_fails W i \<Longrightarrow>
   fetchHotVideosFromApi W i (key site) (name site) = Return (hot_produced W i site)"
  by (auto simp: source_fails_def fetchHotVideosFromApi_def hot_try_def fetchWithTimeout_def
      hot_produced_def source_items_def convertList_Nil
      split: network.splits completion.splits payload.splits if_splits)

lemma survives_category:
  "\<not> source_fails W i \<Longrightarrow>
   fetchCategoryVideosFromApi W i (key site) (name site) c = Return (category_produced W c i site)"
  by (auto simp: source_fails_def fetchCategoryVideosFromApi_def category_try_def fetchWithTimeout_def
      category_produced_def hot_produced_def source_items_def convertList_Nil Let_def
      split: network.splits completion.splits payload.splits if_splits)

lemma concat_map_survivors:
  "(\<And>x. x \<in> set xs \<Longrightarrow> \<not> P x \<Longrightarrow> h x = []) \<Longrightarrow> (\<And>x. x \<in> set xs \<Longrightarrow> P x \<Longrightarrow> h x = g x) \<Longrightarrow>
   concat (map h xs) = concat (map g (filter P xs))"
  by (induction xs) auto

lemma fetchCategory_total:
  "fetchCategoryVideosFromApi W i (key site) (name site) c
     = Return (if source_fails W i then [] else category_produced W c i site)"
  by (simp add: fails_category survives_category)

lemma fetchHot_total:
  "fetchHotVideosFromApi W i (key site) (name site)
     = Return (if source_fails W i then [] else hot_produced W i site)"
  by (simp add: fails_hot survives_hot)

lemma list_ex_survivors:
  "(\<And>x. x \<in> set xs \<Longrightarrow> p x = q x) \<Longrightarrow> list_ex p xs = list_ex q xs"
  by (induction xs) auto

lemma category_allVideos_survivors:
  "category_allVideos W sites c
     = (if category_overflow W sites c then Throw range_error
        else Return (category_merged W sites c))"
proof -
  let ?f = "\<lambda>(i, site). fetchCategoryVideosFromApi W i (key site) (name site) c"
  have ex: "list_ex (\<lambda>x. case ?f x of Return v \<Rightarrow> spread_limit W < length v | Throw e \<Rightarrow> False)
              (enumerate 0 sites) = category_overflow W sites c"
    unfolding category_overflow_def
    by (rule list_ex_survivors) (auto simp: fetchCategory_total split: if_splits)
  have cc: "concat (map (\<lambda>x. case ?f x of Return v \<Rightarrow> v | Throw e \<Rightarrow> []) (enumerate 0 sites))
              = category_merged W sites c"
    unfolding category_merged_def
    by (rule concat_map_survivors) (auto simp: fetchCategory_total)
  show ?thesis
    unfolding category_allVideos_def forEach_push_map append_Nil ex cc ..
qed

lemma hot_allVideos_survivors:
  "hot_allVideos W sites
     = (if hot_overflow W sites then Throw range_error else Return (hot_merged W sites))"
proof -
  let ?f = "\<lambda>(i, site). fetchHotVideosFromApi W i (key site) (name site)"
  have ex: "list_ex (\<lambda>x. case ?f x of Return v \<Rightarrow> spread_limit W < length v | Throw e \<Rightarrow> False)
              (enumerate 0 (take 3 sites)) = hot_overflow W sites"
    unfolding hot_overflow_def
    by (rule list_ex_survivors) (auto simp: fetchHot_total split: if_splits)
  have cc: "concat (map (\<lambda>x. case ?f x of Return v \<Rightarrow> v | Throw e \<Rightarrow> []) (enumerate 0 (take 3 sites)))
              = hot_merged W sites"
    unfolding hot_merged_def
    by (rule concat_map_survivors) (auto simp: fetchHot_total)
  show ?thesis
    unfolding hot_allVideos_def forEach_push_map append_Nil ex cc ..
qed

lemma GET_category_overflow:
  "getAvailableApiSites W = Return sites \<Longrightarrow> category_overflow W sites (or_else c all_categories) \<Longrightarrow>
   GET_category W c l s
     = \<lparr> code = 500, message = msg_category_failed @ error_message range_error, list = [] \<rparr>"
  by (auto simp: GET_category_def category_allVideos_survivors category_overflow_def)

lemma GET_hot_overflow:
  "getAvailableApiSites W = Return sites \<Longrightarrow> hot_overflow W sites \<Longrightarrow>
   GET_hot W l s
     = \<lparr> code = 500, message = msg_hot_failed @ error_message range_error, list = [] \<rparr>"
  by (auto simp: GET_hot_def hot_allVideos_survivors hot_overflow_def)

lemma GET_category_fits:
  "getAvailableApiSites W = Return sites \<Longrightarrow> sites \<noteq> [] \<Longrightarrow>
   \<not> category_overflow W sites (or_else c all_categories) \<Longrightarrow>
   GET_category W c l s
     = \<lparr> code = 200, message = msg_success,
         list = slice (sort_random W (uniqueBy (category_key W)
                  (category_merged W sites (or_else c all_categories)))) s (js_add s l) \<rparr>"
  by (simp add: GET_category_def category_allVideos_survivors Let_def)

lemma GET_hot_fits:
  "getAvailableApiSites W = Return sites \<Longrightarrow> sites \<noteq> [] \<Longrightarrow> \<not> hot_overflow W sites \<Longrightarrow>
   GET_hot W l s
     = \<lparr> code = 200, message = msg_success,
         list = slice (sort_random W (uniqueBy (hot_key W) (hot_merged W sites))) s (js_add s l) \<rparr>"
  by (simp add: GET_hot_def hot_allVideos_survivors Let_def)

lemma code_GET_category:
  "getAvailableApiSites W = Return sites \<Longrightarrow> \<not> category_overflow W sites (or_else c all_categories) \<Longrightarrow>
   code (GET_category W c l s) = 200"
  by (simp add: GET_category_def category_allVideos_survivors Let_def)

lemma code_GET_hot:
  "getAvailableApiSites W = Return sites \<Longrightarrow> \<not> hot_overflow W sites \<Longrightarrow>
   code (GET_hot W l s) = 200"
  by (simp add: GET_hot_def hot_allVideos_survivors Let_def)

section \<open>The endpoints on the sample inputs\<close>

lemma demo_convertList:
  "convertList demo_world 0 (js ''a'') (js ''a'') demo_items
     = [sample_video ''1'' ''Heat'' ''1995'' ''a'', sample_video ''3'' ''HEAT'' ''1995'' ''a'',
        sample_video ''4'' ''Ronin'' ''1998'' ''a'']"
  by (simp add: convertList_def convertItem_def valid_video_def or_else_def enumerate_eq_zip
      demo_items_def demo_world_def sample_video_def sample_defs extractEpisodes_def new_Set_def
      normalize_year_def trim_def is_space_def is_digit_def unknown_title_def upt_rec)

lemma demo_sites: "getAvailableApiSites demo_world = Return [sample_site ''a'', sample_site ''b'']"
  by (simp add: demo_world_def sample_world_def)

lemma demo_survivors:
  "filter (\<lambda>(i, site). \<not> source_fails demo_world i) (enumerate 0 [sample_site ''a'', sample_site ''b''])
     = [(0, sample_site ''a'')]"
  by (simp add: source_fails_def demo_world_def sample_world_def sample_response_def ok_def)

lemma demo_survivors3:
  "filter (\<lambda>(i, site). \<not> source_fails demo_world i)
     (enumerate 0 (take 3 [sample_site ''a'', sample_site ''b'']))
     = [(0, sample_site ''a'')]"
  by (simp add: source_fails_def demo_world_def sample_world_def sample_response_def ok_def)

lemma demo_fails: "\<not> source_fails demo_world 0 \<and> source_fails demo_world (Suc 0)"
  by (simp add: source_fails_def demo_world_def sample_world_def sample_response_def ok_def)

lemma demo_hot_produced:
  "hot_produced demo_world 0 (sample_site ''a'')
     = [sample_video ''1'' ''Heat'' ''1995'' ''a'', sample_video ''3'' ''HEAT'' ''1995'' ''a'',
        sample_video ''4'' ''Ronin'' ''1998'' ''a'']"
proof -
  have "source_items demo_world 0 = demo_items"
    by (simp add: source_items_def demo_world_def sample_world_def sample_response_def)
  then show ?thesis
    using demo_convertList by (simp add: hot_produced_def sample_site_def)
qed

lemma demo_category_produced:
  "category_produced demo_world all_categories 0 (sample_site ''a'')
     = [sample_video ''1'' ''Heat'' ''1995'' ''a'', sample_video ''3'' ''HEAT'' ''1995'' ''a'',
        sample_video ''4'' ''Ronin'' ''1998'' ''a'']"
  by (simp add: category_produced_def demo_hot_produced)

lemma demo_spread_limit: "spread_limit demo_world = 125000"
  by (simp add: demo_world_def sample_world_def)

lemma demo_category_merged:
  "category_merged demo_world [sample_site ''a'', sample_site ''b''] all_categories
     = [sample_video ''1'' ''Heat'' ''1995'' ''a'', sample_video ''3'' ''HEAT'' ''1995'' ''a'',
        sample_video ''4'' ''Ronin'' ''1998'' ''a'']"
  by (simp add: category_merged_def demo_fails demo_category_produced)

lemma demo_hot_merged:
  "hot_merged demo_world [sample_site ''a'', sample_site ''b'']
     = [sample_video ''1'' ''Heat'' ''1995'' ''a'', sample_video ''3'' ''HEAT'' ''1995'' ''a'',
        sample_video ''4'' ''Ronin'' ''1998'' ''a'']"
  by (simp add: hot_merged_def demo_fails demo_hot_produced)

lemma demo_category_fits:
  "\<not> category_overflow demo_world [sample_site ''a'', sample_site ''b''] all_categories"
  by (simp add: category_overflow_def demo_fails demo_category_produced demo_spread_limit)

lemma demo_hot_fits:
  "\<not> hot_overflow demo_world [sample_site ''a'', sample_site ''b'']"
  by (simp add: hot_overflow_def demo_fails demo_hot_produced demo_spread_limit)

lemma demo_category_allVideos:
  "category_allVideos demo_world [sample_site ''a'', sample_site ''b''] all_categories
     = Return [sample_video ''1'' ''Heat'' ''1995'' ''a'', sample_video ''3'' ''HEAT'' ''1995'' ''a'',
        sample_video ''4'' ''Ronin'' ''1998'' ''a'']"
  by (simp add: category_allVideos_survivors demo_category_fits demo_category_merged)

lemma demo_hot_allVideos:
  "hot_allVideos demo_world [sample_site ''a'', sample_site ''b'']
     = Return [sample_video ''1'' ''Heat'' ''1995'' ''a'', sample_video ''3'' ''HEAT'' ''1995'' ''a'',
        sample_video ''4'' ''Ronin'' ''1998'' ''a'']"
  by (simp add: hot_allVideos_survivors demo_hot_fits demo_hot_merged)

lemma demo_unique_category:
  "uniqueBy (category_key demo_world)
     [sample_video ''1'' ''Heat'' ''1995'' ''a'', sample_video ''3'' ''HEAT'' ''1995'' ''a'',
      sample_video ''4'' ''Ronin'' ''1998'' ''a'']
     = [sample_video ''3'' ''HEAT'' ''1995'' ''a'', sample_video ''4'' ''Ronin'' ''1998'' ''a'']"
  by (simp add: uniqueBy_def new_Map_def map_values_def category_key_def demo_world_def
      sample_video_def sample_defs)

lemma demo_unique_hot:
  "uniqueBy (hot_key demo_world)
     [sample_video ''1'' ''Heat'' ''1995'' ''a'', sample_video ''3'' ''HEAT'' ''1995'' ''a'',
      sample_video ''4'' ''Ronin'' ''1998'' ''a'']
     = [sample_video ''3'' ''HEAT'' ''1995'' ''a'', sample_video ''4'' ''Ronin'' ''1998'' ''a'']"
  by (simp add: uniqueBy_def new_Map_def map_values_def hot_key_def demo_world_def
      sample_video_def sample_defs)

lemma demo_shuffled:
  "sort_random demo_world [x, y] = [y, x]"
  by (simp add: sort_random_def demo_world_def sample_world_def comparator_def exchange_def)

lemma all_categories_default: "or_else None all_categories = all_categories"
  by (simp add: or_else_def)

lemma demo_category_shuffled:
  "sort_random demo_world (uniqueBy (category_key demo_world)
     [sample_video ''1'' ''Heat'' ''1995'' ''a'', sample_video ''3'' ''HEAT'' ''1995'' ''a'',
      sample_video ''4'' ''Ronin'' ''1998'' ''a''])
     = [sample_video ''4'' ''Ronin'' ''1998'' ''a'', sample_video ''3'' ''HEAT'' ''1995'' ''a'']"
  by (simp add: demo_unique_category demo_shuffled)

lemma demo_hot_shuffled:
  "sort_random demo_world (uniqueBy (hot_key demo_world)
     [sample_video ''1'' ''Heat'' ''1995'' ''a'', sample_video ''3'' ''HEAT'' ''1995'' ''a'',
      sample_video ''4'' ''Ronin'' ''1998'' ''a''])
     = [sample_video ''4'' ''Ronin'' ''1998'' ''a'', sample_video ''3'' ''HEAT'' ''1995'' ''a'']"
  by (simp add: demo_unique_hot demo_shuffled)

lemma demo_full_page:
  "list (GET_category demo_world None (Num 25) (Num 0))
     = [sample_video ''4'' ''Ronin'' ''1998'' ''a'', sample_video ''3'' ''HEAT'' ''1995'' ''a'']"
  using list_GET_category [OF demo_sites, of None "Num 25" "Num 0"]
  by (simp add: all_categories_default demo_category_allVideos demo_category_shuffled slice_def)

lemma demo_hot_page:
  "list (GET_hot demo_world (Num 20) (Num 0))
     = [sample_video ''4'' ''Ronin'' ''1998'' ''a'', sample_video ''3'' ''HEAT'' ''1995'' ''a'']"
  using list_GET_hot [OF demo_sites, of "Num 20" "Num 0"]
  by (simp add: demo_hot_allVideos demo_hot_shuffled slice_def)

text \<open>The source with 130000 records.\<close>

lemma overflow_sites: "getAvailableApiSites overflow_world = Return [sample_site ''a'']"
  by (simp add: overflow_world_def sample_world_def)

lemma overflow_survives: "\<not> source_fails overflow_world 0"
  by (simp add: source_fails_def overflow_world_def sample_world_def sample_response_def ok_def)

lemma overflow_source_items: "source_items overflow_world 0 = overflow_items"
  by (simp add: source_items_def overflow_world_def sample_world_def sample_response_def)

lemma overflow_items_length: "length overflow_items = 130000"
  unfolding overflow_items_def by (rule length_replicate)

lemma overflow_length: "length (source_items overflow_world 0) = 130000"
  unfolding overflow_source_items by (rule overflow_items_length)

lemma overflow_items_poster:
  "item \<in> set overflow_items \<Longrightarrow> vod_pic item \<noteq> None \<and> vod_pic item \<noteq> Some []"
  unfolding overflow_items_def in_set_replicate by (simp add: sample_item_def js_def)

lemma length_convertList:
  "(\<And>item. item \<in> set items \<Longrightarrow> vod_pic item \<noteq> None \<and> vod_pic item \<noteq> Some []) \<Longrightarrow>
   length (convertList W i sk sn items) = length items"
proof -
  assume p: "\<And>item. item \<in> set items \<Longrightarrow> vod_pic item \<noteq> None \<and> vod_pic item \<noteq> Some []"
  have "filter (\<lambda>(j, item). vod_pic item \<noteq> None \<and> vod_pic item \<noteq> Some []) (enumerate 0 items)
      = enumerate 0 items"
    by (rule filter_True) (auto simp: in_set_enumerate_eq dest!: p [OF nth_mem])
  then show ?thesis by (simp add: convertList_filter)
qed

lemma overflow_produced: "length (hot_produced overflow_world 0 (sample_site ''a'')) = 130000"
  unfolding hot_produced_def overflow_source_items
  using length_convertList [of overflow_items, OF overflow_items_poster] overflow_items_length
  by simp

lemma overflow_spread_limit: "spread_limit overflow_world = 125000"
  by (simp add: overflow_world_def sample_world_def)

lemma overflow_category: "category_overflow overflow_world [sample_site ''a''] all_categories"
  by (simp add: category_overflow_def category_produced_def overflow_survives overflow_produced
      overflow_spread_limit)

lemma overflow_hot: "hot_overflow overflow_world [sample_site ''a'']"
  by (simp add: hot_overflow_def overflow_survives overflow_produced overflow_spread_limit)

section \<open>The claims about the aggregated output\<close>

text \<open>
  C1, as the code has it. A raw record is emitted exactly when its poster field is
  present and not empty: the converted records are the conversions of those items, in
  their order. A name that is absent, empty or only white space is replaced by the
  literal for an unknown title; any other name gives its words with one space between
  them. So the title of a converted record is never empty and the title never rejects a
  record. Every record of the output of either endpoint has a title and a poster that
  are not empty.
\<close>

theorem rejection_by_poster:
  "convertList W i sourceKey sourceName items
     = map (\<lambda>(j, item). convertItem W i sourceKey sourceName j item)
         (filter (\<lambda>(j, item). vod_pic item \<noteq> None \<and> vod_pic item \<noteq> Some []) (enumerate 0 items))
   \<and> title (convertItem W i sourceKey sourceName j item) \<noteq> []
   \<and> (vod_name item = None \<or> (\<exists>s. vod_name item = Some s \<and> list_all is_space s) \<longrightarrow>
        title (convertItem W i sourceKey sourceName j item) = unknown_title)
   \<and> (\<forall>s. vod_name item = Some s \<and> \<not> list_all is_space s \<longrightarrow>
        title (convertItem W i sourceKey sourceName j item) = join_spaces (words_of s))
   \<and> (poster (convertItem W i sourceKey sourceName j item) = [])
       = (vod_pic item = None \<or> vod_pic item = Some [])
   \<and> (\<forall>v \<in> set (list (GET_category W category pageLimit pageStart)). title v \<noteq> [] \<and> poster v \<noteq> [])
   \<and> (\<forall>v \<in> set (list (GET_hot W pageLimit pageStart)). title v \<noteq> [] \<and> poster v \<noteq> [])"
proof (intro conjI ballI allI)
  show "convertList W i sourceKey sourceName items
     = map (\<lambda>(j, item). convertItem W i sourceKey sourceName j item)
         (filter (\<lambda>(j, item). vod_pic item \<noteq> None \<and> vod_pic item \<noteq> Some []) (enumerate 0 items))"
    by (rule convertList_filter)
  show "title (convertItem W i sourceKey sourceName j item) \<noteq> []"
    by (rule title_convertItem)
  show "vod_name item = None \<or> (\<exists>s. vod_name item = Some s \<and> list_all is_space s) \<longrightarrow>
        title (convertItem W i sourceKey sourceName j item) = unknown_title"
  proof
    assume "vod_name item = None \<or> (\<exists>s. vod_name item = Some s \<and> list_all is_space s)"
    then show "title (convertItem W i sourceKey sourceName j item) = unknown_title"
    proof
      assume "vod_name item = None"
      then show ?thesis by (simp add: convertItem_def or_else_def)
    next
      assume "\<exists>s. vod_name item = Some s \<and> list_all is_space s"
      then obtain s where "vod_name item = Some s" and "list_all is_space s" by blast
      then show ?thesis by (simp add: title_of_name)
    qed
  qed
  show "(poster (convertItem W i sourceKey sourceName j item) = [])
       = (vod_pic item = None \<or> vod_pic item = Some [])"
    by (simp add: convertItem_def or_else_empty)
next
  fix s
  show "vod_name item = Some s \<and> \<not> list_all is_space s \<longrightarrow>
        title (convertItem W i sourceKey sourceName j item) = join_spaces (words_of s)"
    by (simp add: title_of_name)
next
  fix v assume "v \<in> set (list (GET_category W category pageLimit pageStart))"
  then have "valid_video v" by (rule valid_GET_category)
  then show "title v \<noteq> []" and "poster v \<noteq> []" by (simp_all add: valid_video_def)
next
  fix v assume "v \<in> set (list (GET_hot W pageLimit pageStart))"
  then have "valid_video v" by (rule valid_GET_hot)
  then show "title v \<noteq> []" and "poster v \<noteq> []" by (simp_all add: valid_video_def)
qed

theorem rejection_by_poster_witness:
  "convertList demo_world 0 (js ''a'') (js ''a'') demo_items
     = [convertItem demo_world 0 (js ''a'') (js ''a'') 0 (demo_items ! 0),
        convertItem demo_world 0 (js ''a'') (js ''a'') 2 (demo_items ! 2),
        convertItem demo_world 0 (js ''a'') (js ''a'') 3 (demo_items ! 3)]
   \<and> vod_pic (demo_items ! 1) = None
   \<and> title (convertItem demo_world 0 (js ''a'') (js ''a'') 0
        (sample_item (Some ''9'') None (Some ''p.jpg'') (Some ''2001''))) = unknown_title
   \<and> title (convertItem demo_world 0 (js ''a'') (js ''a'') 0
        (sample_item (Some ''9'') (Some ''  '') (Some ''p.jpg'') (Some ''2001''))) = unknown_title
   \<and> title (convertItem demo_world 0 (js ''a'') (js ''a'') 0
        (sample_item (Some ''9'') (Some '' The  Heat '') (Some ''p.jpg'') (Some ''2001''))) = js ''The Heat''
   \<and> title (sample_video ''4'' ''Ronin'' ''1998'' ''a'') \<noteq> []
   \<and> poster (sample_video ''4'' ''Ronin'' ''1998'' ''a'') \<noteq> []"
proof -
  note T = rejection_by_poster [where W = demo_world and i = 0 and sourceKey = "js ''a''"
      and sourceName = "js ''a''" and items = demo_items and category = None
      and pageLimit = "Num 25" and pageStart = "Num 0"]
  have f: "filter (\<lambda>(j, item). vod_pic item \<noteq> None \<and> vod_pic item \<noteq> Some []) (enumerate 0 demo_items)
      = [(0, demo_items ! 0), (2, demo_items ! 2), (3, demo_items ! 3)]"
    by (simp add: demo_items_def sample_item_def js_def enumerate_eq_zip upt_rec)
  from T have "convertList demo_world 0 (js ''a'') (js ''a'') demo_items
     = map (\<lambda>(j, item). convertItem demo_world 0 (js ''a'') (js ''a'') j item)
         (filter (\<lambda>(j, item). vod_pic item \<noteq> None \<and> vod_pic item \<noteq> Some []) (enumerate 0 demo_items))"
    by blast
  then have a: "convertList demo_world 0 (js ''a'') (js ''a'') demo_items
     = [convertItem demo_world 0 (js ''a'') (js ''a'') 0 (demo_items ! 0),
        convertItem demo_world 0 (js ''a'') (js ''a'') 2 (demo_items ! 2),
        convertItem demo_world 0 (js ''a'') (js ''a'') 3 (demo_items ! 3)]"
    by (simp only: f list.map prod.case)
  have b: "vod_pic (demo_items ! 1) = None"
    by (simp add: demo_items_def sample_item_def)
  have m: "sample_video ''4'' ''Ronin'' ''1998'' ''a'' \<in> set (list (GET_category demo_world None (Num 25) (Num 0)))"
    by (simp add: demo_full_page)
  from T m have c: "title (sample_video ''4'' ''Ronin'' ''1998'' ''a'') \<noteq> []
      \<and> poster (sample_video ''4'' ''Ronin'' ''1998'' ''a'') \<noteq> []"
    by blast
  have n: "vod_name (sample_item (Some ''9'') None (Some ''p.jpg'') (Some ''2001'')) = None"
    by (simp add: sample_item_def)
  from rejection_by_poster [where W = demo_world and i = 0 and sourceKey = "js ''a''"
      and sourceName = "js ''a''" and j = 0
      and item = "sample_item (Some ''9'') None (Some ''p.jpg'') (Some ''2001'')"] n
  have d: "title (convertItem demo_world 0 (js ''a'') (js ''a'') 0
        (sample_item (Some ''9'') None (Some ''p.jpg'') (Some ''2001''))) = unknown_title"
    by blast
  have n2: "vod_name (sample_item (Some ''9'') (Some ''  '') (Some ''p.jpg'') (Some ''2001'')) = Some (js ''  '')
      \<and> list_all is_space (js ''  '')"
    by (simp add: sample_item_def js_def is_space_def)
  from rejection_by_poster [where W = demo_world and i = 0 and sourceKey = "js ''a''"
      and sourceName = "js ''a''" and j = 0
      and item = "sample_item (Some ''9'') (Some ''  '') (Some ''p.jpg'') (Some ''2001'')"] n2
  have d2: "title (convertItem demo_world 0 (js ''a'') (js ''a'') 0
        (sample_item (Some ''9'') (Some ''  '') (Some ''p.jpg'') (Some ''2001''))) = unknown_title"
    by blast
  have n3: "vod_name (sample_item (Some ''9'') (Some '' The  Heat '') (Some ''p.jpg'') (Some ''2001''))
        = Some (js '' The  Heat '')
      \<and> \<not> list_all is_space (js '' The  Heat '')"
    by (simp add: sample_item_def js_def is_space_def)
  from rejection_by_poster [where W = demo_world and i = 0 and sourceKey = "js ''a''"
      and sourceName = "js ''a''" and j = 0
      and item = "sample_item (Some ''9'') (Some '' The  Heat '') (Some ''p.jpg'') (Some ''2001'')"] n3
  have "title (convertItem demo_world 0 (js ''a'') (js ''a'') 0
        (sample_item (Some ''9'') (Some '' The  Heat '') (Some ''p.jpg'') (Some ''2001'')))
      = join_spaces (words_of (js '' The  Heat ''))"
    by blast
  also have "\<dots> = js ''The Heat''"
    by (simp add: words_of_def js_def is_space_def)
  finally have d3: "title (convertItem demo_world 0 (js ''a'') (js ''a'') 0
        (sample_item (Some ''9'') (Some '' The  Heat '') (Some ''p.jpg'') (Some ''2001''))) = js ''The Heat''" .
  show ?thesis using a b c d d2 d3 by blast
qed

text \<open>
  C1 as the specification states it fails: a raw record without a name and with a
  poster is emitted by both endpoints, under the literal for an unknown title.
\<close>

theorem rejection_counterexample:
  "vod_name (sample_item (Some ''9'') None (Some ''p.jpg'') (Some ''2001'')) = None
   \<and> map title (list (GET_category nameless_world None (Num 25) (Num 0))) = [unknown_title]
   \<and> map vid (list (GET_category nameless_world None (Num 25) (Num 0))) = [js ''9'']
   \<and> map title (list (GET_hot nameless_world (Num 20) (Num 0))) = [unknown_title]"
  by (simp add: GET_category_def GET_hot_def category_allVideos_def hot_allVideos_def
      fetchCategoryVideosFromApi_def fetchHotVideosFromApi_def category_try_def hot_try_def
      fetchWithTimeout_def ok_def push_settled_def convertList_def convertItem_def valid_video_def
      or_else_def uniqueBy_def new_Map_def map_values_def sort_random_def slice_def
      nameless_world_def sample_defs unknown_title_def all_categories_def)

text \<open>
  C3. In the output of the full mode no two records share the key of that mode, and so
  no two share the title in lower case, the year and the source; in the output of the
  trending mode no two records share the key with the class, and so no two share the
  title in lower case, the year and the class.
\<close>

theorem retained_keys_distinct:
  fixes W :: world and category :: "jsstring option" and pageStart pageLimit :: jsnum
  defines "full \<equiv> list (GET_category W category pageLimit pageStart)"
  defines "trending \<equiv> list (GET_hot W pageLimit pageStart)"
  shows "distinct (map (category_key W) full)
    \<and> distinct (map (hot_key W) trending)
    \<and> (\<forall>i j. i < j \<and> j < length full \<longrightarrow>
          \<not> (toLowerCase W (title (full ! i)) = toLowerCase W (title (full ! j))
             \<and> year (full ! i) = year (full ! j) \<and> source (full ! i) = source (full ! j)))
    \<and> (\<forall>i j. i < j \<and> j < length trending \<longrightarrow>
          \<not> (toLowerCase W (title (trending ! i)) = toLowerCase W (title (trending ! j))
             \<and> year (trending ! i) = year (trending ! j) \<and> vclass (trending ! i) = vclass (trending ! j)))"
proof (intro conjI allI impI)
  show d1: "distinct (map (category_key W) full)"
    unfolding full_def by (rule distinct_keys_GET_category)
  show d2: "distinct (map (hot_key W) trending)"
    unfolding trending_def by (rule distinct_keys_GET_hot)
  fix i j
  {
    assume "i < j \<and> j < length full"
    then have "category_key W (full ! i) \<noteq> category_key W (full ! j)"
      using distinct_map_nth [OF d1] by blast
    then show "\<not> (toLowerCase W (title (full ! i)) = toLowerCase W (title (full ! j))
             \<and> year (full ! i) = year (full ! j) \<and> source (full ! i) = source (full ! j))"
      by (auto simp: category_key_def)
  }
  {
    assume "i < j \<and> j < length trending"
    then have "hot_key W (trending ! i) \<noteq> hot_key W (trending ! j)"
      using distinct_map_nth [OF d2] by blast
    then show "\<not> (toLowerCase W (title (trending ! i)) = toLowerCase W (title (trending ! j))
             \<and> year (trending ! i) = year (trending ! j) \<and> vclass (trending ! i) = vclass (trending ! j))"
      by (auto simp: hot_key_def)
  }
qed

theorem retained_keys_distinct_witness:
  "map (category_key demo_world) (list (GET_category demo_world None (Num 25) (Num 0)))
     = [js ''ronin-1998-a'', js ''heat-1995-a'']
   \<and> distinct (map (category_key demo_world) (list (GET_category demo_world None (Num 25) (Num 0))))
   \<and> distinct (map (hot_key demo_world) (list (GET_hot demo_world (Num 20) (Num 0))))
   \<and> \<not> (toLowerCase demo_world (title (list (GET_hot demo_world (Num 20) (Num 0)) ! 0))
          = toLowerCase demo_world (title (list (GET_hot demo_world (Num 20) (Num 0)) ! 1))
         \<and> year (list (GET_hot demo_world (Num 20) (Num 0)) ! 0)
          = year (list (GET_hot demo_world (Num 20) (Num 0)) ! 1)
         \<and> vclass (list (GET_hot demo_world (Num 20) (Num 0)) ! 0)
          = vclass (list (GET_hot demo_world (Num 20) (Num 0)) ! 1))
   \<and> \<not> (toLowerCase demo_world (title (list (GET_category demo_world None (Num 25) (Num 0)) ! 0))
          = toLowerCase demo_world (title (list (GET_category demo_world None (Num 25) (Num 0)) ! 1))
         \<and> year (list (GET_category demo_world None (Num 25) (Num 0)) ! 0)
          = year (list (GET_category demo_world None (Num 25) (Num 0)) ! 1)
         \<and> source (list (GET_category demo_world None (Num 25) (Num 0)) ! 0)
          = source (list (GET_category demo_world None (Num 25) (Num 0)) ! 1))"
proof -
  note T = retained_keys_distinct [of demo_world None "Num 25" "Num 0"]
  have keys: "map (category_key demo_world) (list (GET_category demo_world None (Num 25) (Num 0)))
     = [js ''ronin-1998-a'', js ''heat-1995-a'']"
    unfolding demo_full_page
    by (simp add: category_key_def demo_world_def sample_video_def sample_defs)
  have len: "(0 :: nat) < 1 \<and> 1 < length (list (GET_category demo_world None (Num 25) (Num 0)))"
    by (simp add: demo_full_page)
  from T have d1: "distinct (map (category_key demo_world) (list (GET_category demo_world None (Num 25) (Num 0))))"
    by blast
  note T' = retained_keys_distinct [of demo_world None "Num 20" "Num 0"]
  from T' have d2: "distinct (map (hot_key demo_world) (list (GET_hot demo_world (Num 20) (Num 0))))"
    by blast
  have len': "(0 :: nat) < 1 \<and> 1 < length (list (GET_hot demo_world (Num 20) (Num 0)))"
    by (simp add: demo_hot_page)
  from T' len' have tr': "\<not> (toLowerCase demo_world (title (list (GET_hot demo_world (Num 20) (Num 0)) ! 0))
          = toLowerCase demo_world (title (list (GET_hot demo_world (Num 20) (Num 0)) ! 1))
         \<and> year (list (GET_hot demo_world (Num 20) (Num 0)) ! 0)
          = year (list (GET_hot demo_world (Num 20) (Num 0)) ! 1)
         \<and> vclass (list (GET_hot demo_world (Num 20) (Num 0)) ! 0)
          = vclass (list (GET_hot demo_world (Num 20) (Num 0)) ! 1))"
    by blast
  from T len have tr: "\<not> (toLowerCase demo_world (title (list (GET_category demo_world None (Num 25) (Num 0)) ! 0))
          = toLowerCase demo_world (title (list (GET_category demo_world None (Num 25) (Num 0)) ! 1))
         \<and> year (list (GET_category demo_world None (Num 25) (Num 0)) ! 0)
          = year (list (GET_category demo_world None (Num 25) (Num 0)) ! 1)
         \<and> source (list (GET_category demo_world None (Num 25) (Num 0)) ! 0)
          = source (list (GET_category demo_world None (Num 25) (Num 0)) ! 1))"
    by blast
  show ?thesis using keys d1 d2 tr tr' by blast
qed

text \<open>
  C4, as the code has it. When the list of sources is there and not empty, the items of
  either endpoint are \<open>slice(start, start + limit)\<close> of the deduplicated and shuffled
  sequence (and there are no items when the merge ended with an error, so that there is
  no such sequence). For a start that is not negative and a limit with \<open>start + limit\<close>
  not negative this is the page of the specification. A start at or beyond the length
  gives the empty list, whatever the limit. (\<open>slice\<close> counts a negative argument from the
  end of the sequence; the theorem says nothing about those.)
\<close>

theorem paged_slice:
  fixes W :: world and sites :: "ApiSite list" and category :: "jsstring option"
    and pageStart pageLimit :: jsnum
  assumes "getAvailableApiSites W = Return sites" and "sites \<noteq> []"
  shows "list (GET_category W category pageLimit pageStart)
       = (case category_allVideos W sites (or_else category all_categories) of
            Throw e \<Rightarrow> []
          | Return allVideos \<Rightarrow>
              slice (sort_random W (uniqueBy (category_key W) allVideos))
                pageStart (js_add pageStart pageLimit))
    \<and> list (GET_hot W pageLimit pageStart)
       = (case hot_allVideos W sites of
            Throw e \<Rightarrow> []
          | Return allVideos \<Rightarrow>
              slice (sort_random W (uniqueBy (hot_key W) allVideos))
                pageStart (js_add pageStart pageLimit))
    \<and> (\<forall>(xs :: VideoResult list) start limit. 0 \<le> start \<and> 0 \<le> start + limit \<longrightarrow>
          slice xs (Num start) (js_add (Num start) (Num limit)) = page_of xs start limit)
    \<and> (\<forall>(xs :: VideoResult list) start e. int (length xs) \<le> start \<longrightarrow> slice xs (Num start) e = [])"
proof (intro conjI allI impI)
  show "list (GET_category W category pageLimit pageStart)
       = (case category_allVideos W sites (or_else category all_categories) of
            Throw e \<Rightarrow> []
          | Return allVideos \<Rightarrow>
              slice (sort_random W (uniqueBy (category_key W) allVideos))
                pageStart (js_add pageStart pageLimit))"
    using assms(1,2) by (rule list_GET_category)
  show "list (GET_hot W pageLimit pageStart)
       = (case hot_allVideos W sites of
            Throw e \<Rightarrow> []
          | Return allVideos \<Rightarrow>
              slice (sort_random W (uniqueBy (hot_key W) allVideos))
                pageStart (js_add pageStart pageLimit))"
    using assms(1,2) by (rule list_GET_hot)
next
  fix xs :: "VideoResult list" and start limit :: int
  assume "0 \<le> start \<and> 0 \<le> start + limit"
  then show "slice xs (Num start) (js_add (Num start) (Num limit)) = page_of xs start limit"
    by (intro slice_page) auto
next
  fix xs :: "VideoResult list" and start :: int and e :: jsnum
  assume "int (length xs) \<le> start"
  then show "slice xs (Num start) e = []" by (rule slice_beyond)
qed

theorem paged_slice_witness:
  "list (GET_category demo_world None (Num 1) (Num 1)) = [sample_video ''3'' ''HEAT'' ''1995'' ''a'']
   \<and> list (GET_hot demo_world (Num 1) (Num 1)) = [sample_video ''3'' ''HEAT'' ''1995'' ''a'']
   \<and> list (GET_category demo_world None (Num 25) (Num 2)) = []"
proof -
  let ?page = "[sample_video ''4'' ''Ronin'' ''1998'' ''a'', sample_video ''3'' ''HEAT'' ''1995'' ''a'']"
  have ne: "[sample_site ''a'', sample_site ''b''] \<noteq> []" by simp
  note T1 = paged_slice [OF demo_sites ne, of None "Num 1" "Num 1",
      unfolded all_categories_default demo_category_allVideos demo_hot_allVideos completion.case
        demo_category_shuffled demo_hot_shuffled]
  note T2 = paged_slice [OF demo_sites ne, of None "Num 25" "Num 2",
      unfolded all_categories_default demo_category_allVideos demo_hot_allVideos completion.case
        demo_category_shuffled demo_hot_shuffled]
  from T1 have "0 \<le> (1 :: int) \<and> 0 \<le> (1 :: int) + 1 \<longrightarrow>
      slice ?page (Num 1) (js_add (Num 1) (Num 1)) = page_of ?page 1 1"
    by blast
  then have s1: "slice ?page (Num 1) (js_add (Num 1) (Num 1)) = [sample_video ''3'' ''HEAT'' ''1995'' ''a'']"
    by (simp add: page_of_def)
  from T2 have "int (length ?page) \<le> 2 \<longrightarrow> slice ?page (Num 2) (js_add (Num 2) (Num 25)) = []"
    by blast
  then have s2: "slice ?page (Num 2) (js_add (Num 2) (Num 25)) = []" by simp
  from T1 s1 have a: "list (GET_category demo_world None (Num 1) (Num 1))
      = [sample_video ''3'' ''HEAT'' ''1995'' ''a'']"
    by simp
  from T1 s1 have b: "list (GET_hot demo_world (Num 1) (Num 1)) = [sample_video ''3'' ''HEAT'' ''1995'' ''a'']"
    by simp
  from T2 s2 have c: "list (GET_category demo_world None (Num 25) (Num 2)) = []"
    by simp
  show ?thesis using a b c by simp
qed

text \<open>
  C4 as the specification states it fails for a negative start: with start -1 and limit
  3 on a sequence of two elements the positions of the interval from -1 to 2 that lie in
  the sequence are 0 and 1, but \<open>slice(-1, 2)\<close> returns the last element only.
\<close>

theorem paged_slice_counterexample:
  "slice [1, 2 :: nat] (Num (- 1)) (js_add (Num (- 1)) (Num 3)) = [2]
   \<and> page_of [1, 2 :: nat] (- 1) 3 = [1, 2]"
  by (simp add: slice_def page_of_def)

text \<open>
  C9, as the code behaves. A source that fails contributes the empty list. When no source
  that does not fail produced more records than the engine takes as arguments of one
  call, both endpoints answer with code 200 and the page of the deduplicated, shuffled
  concatenation of what the sources that do not fail produced, in the order of the
  sources. When one did, \<open>allVideos.push(...result.value)\<close> throws, and the endpoint
  answers with code 500 and an empty list although no source failed to deliver. With no
  source configured the message says so and the list is empty.
\<close>

theorem tolerance_up_to_spread_limit:
  fixes W :: world and sites :: "ApiSite list" and category :: "jsstring option"
    and pageStart pageLimit :: jsnum
  assumes "getAvailableApiSites W = Return sites"
  defines "cat \<equiv> or_else category all_categories"
  shows "(\<forall>i sourceKey sourceName. source_fails W i \<longrightarrow>
          fetchCategoryVideosFromApi W i sourceKey sourceName cat = Return []
          \<and> fetchHotVideosFromApi W i sourceKey sourceName = Return [])
    \<and> (sites \<noteq> [] \<and> \<not> category_overflow W sites cat \<longrightarrow>
          GET_category W category pageLimit pageStart
            = \<lparr> code = 200, message = msg_success,
                list = slice (sort_random W (uniqueBy (category_key W) (category_merged W sites cat)))
                         pageStart (js_add pageStart pageLimit) \<rparr>)
    \<and> (sites \<noteq> [] \<and> \<not> hot_overflow W sites \<longrightarrow>
          GET_hot W pageLimit pageStart
            = \<lparr> code = 200, message = msg_success,
                list = slice (sort_random W (uniqueBy (hot_key W) (hot_merged W sites)))
                         pageStart (js_add pageStart pageLimit) \<rparr>)
    \<and> (category_overflow W sites cat \<longrightarrow>
          GET_category W category pageLimit pageStart
            = \<lparr> code = 500, message = msg_category_failed @ error_message range_error, list = [] \<rparr>)
    \<and> (hot_overflow W sites \<longrightarrow>
          GET_hot W pageLimit pageStart
            = \<lparr> code = 500, message = msg_hot_failed @ error_message range_error, list = [] \<rparr>)
    \<and> (sites = [] \<longrightarrow>
          GET_category W category pageLimit pageStart
            = \<lparr> code = 200, message = msg_no_sources, list = [] \<rparr>
          \<and> GET_hot W pageLimit pageStart = \<lparr> code = 200, message = msg_no_sources, list = [] \<rparr>)"
proof (intro conjI allI impI)
  fix i sourceKey sourceName
  assume "source_fails W i"
  then show "fetchCategoryVideosFromApi W i sourceKey sourceName cat = Return []"
    and "fetchHotVideosFromApi W i sourceKey sourceName = Return []"
    by (simp_all add: fails_category fails_hot)
next
  assume "sites \<noteq> [] \<and> \<not> category_overflow W sites cat"
  then show "GET_category W category pageLimit pageStart
            = \<lparr> code = 200, message = msg_success,
                list = slice (sort_random W (uniqueBy (category_key W) (category_merged W sites cat)))
                         pageStart (js_add pageStart pageLimit) \<rparr>"
    unfolding cat_def using GET_category_fits [OF assms(1)] by blast
next
  assume "sites \<noteq> [] \<and> \<not> hot_overflow W sites"
  then show "GET_hot W pageLimit pageStart
            = \<lparr> code = 200, message = msg_success,
                list = slice (sort_random W (uniqueBy (hot_key W) (hot_merged W sites)))
                         pageStart (js_add pageStart pageLimit) \<rparr>"
    using GET_hot_fits [OF assms(1)] by blast
next
  assume "category_overflow W sites cat"
  then show "GET_category W category pageLimit pageStart
            = \<lparr> code = 500, message = msg_category_failed @ error_message range_error, list = [] \<rparr>"
    unfolding cat_def using GET_category_overflow [OF assms(1)] by blast
next
  assume "hot_overflow W sites"
  then show "GET_hot W pageLimit pageStart
            = \<lparr> code = 500, message = msg_hot_failed @ error_message range_error, list = [] \<rparr>"
    using GET_hot_overflow [OF assms(1)] by blast
next
  assume "sites = []"
  with assms(1) show "GET_category W category pageLimit pageStart
            = \<lparr> code = 200, message = msg_no_sources, list = [] \<rparr>"
    and "GET_hot W pageLimit pageStart = \<lparr> code = 200, message = msg_no_sources, list = [] \<rparr>"
    by (simp_all add: GET_category_def GET_hot_def)
qed

text \<open>
  One source is configured and it does not fail: it answers with status 200 and a list
  of 130000 records, each with a name and a poster. Both endpoints answer with code 500
  and an empty list. Next to it, the two sources of which the second fails, and no source
  at all.
\<close>

theorem tolerance_up_to_spread_limit_witness:
  "getAvailableApiSites overflow_world = Return [sample_site ''a'']
   \<and> \<not> source_fails overflow_world 0
   \<and> length (source_items overflow_world 0) = 130000
   \<and> length (hot_produced overflow_world 0 (sample_site ''a'')) = 130000
   \<and> code (GET_category overflow_world None (Num 25) (Num 0)) = 500
   \<and> list (GET_category overflow_world None (Num 25) (Num 0)) = []
   \<and> code (GET_hot overflow_world (Num 20) (Num 0)) = 500
   \<and> list (GET_hot overflow_world (Num 20) (Num 0)) = []
   \<and> source_fails demo_world 1
   \<and> code (GET_category demo_world None (Num 25) (Num 0)) = 200
   \<and> list (GET_category demo_world None (Num 25) (Num 0))
       = [sample_video ''4'' ''Ronin'' ''1998'' ''a'', sample_video ''3'' ''HEAT'' ''1995'' ''a'']
   \<and> fetchCategoryVideosFromApi demo_world 1 (js ''b'') (js ''b'') all_categories = Return []
   \<and> GET_category (sample_world [] (\<lambda>i. Hangs)) None (Num 25) (Num 0)
       = \<lparr> code = 200, message = msg_no_sources, list = [] \<rparr>"
proof -
  note O = tolerance_up_to_spread_limit [OF overflow_sites, of None "Num 25" "Num 0",
      unfolded all_categories_default]
  note O' = tolerance_up_to_spread_limit [OF overflow_sites, of None "Num 20" "Num 0"]
  note T = tolerance_up_to_spread_limit [OF demo_sites, of None "Num 25" "Num 0",
      unfolded all_categories_default]
  have e: "getAvailableApiSites (sample_world [] (\<lambda>i. Hangs)) = Return []"
    by (simp add: sample_world_def)
  note E = tolerance_up_to_spread_limit [OF e, of None "Num 25" "Num 0"]
  from O overflow_category have "GET_category overflow_world None (Num 25) (Num 0)
      = \<lparr> code = 500, message = msg_category_failed @ error_message range_error, list = [] \<rparr>"
    by blast
  then have o1: "code (GET_category overflow_world None (Num 25) (Num 0)) = 500
      \<and> list (GET_category overflow_world None (Num 25) (Num 0)) = []"
    by simp
  from O' overflow_hot have "GET_hot overflow_world (Num 20) (Num 0)
      = \<lparr> code = 500, message = msg_hot_failed @ error_message range_error, list = [] \<rparr>"
    by blast
  then have o2: "code (GET_hot overflow_world (Num 20) (Num 0)) = 500
      \<and> list (GET_hot overflow_world (Num 20) (Num 0)) = []"
    by simp
  have f: "source_fails demo_world 1" using demo_fails by simp
  have ne: "[sample_site ''a'', sample_site ''b''] \<noteq> []" by simp
  from T ne demo_category_fits have "GET_category demo_world None (Num 25) (Num 0)
      = \<lparr> code = 200, message = msg_success,
          list = slice (sort_random demo_world (uniqueBy (category_key demo_world)
                   (category_merged demo_world [sample_site ''a'', sample_site ''b''] all_categories)))
                   (Num 0) (js_add (Num 0) (Num 25)) \<rparr>"
    by blast
  then have b: "code (GET_category demo_world None (Num 25) (Num 0)) = 200
      \<and> list (GET_category demo_world None (Num 25) (Num 0))
       = [sample_video ''4'' ''Ronin'' ''1998'' ''a'', sample_video ''3'' ''HEAT'' ''1995'' ''a'']"
    unfolding demo_category_merged
    by (simp add: demo_unique_category demo_shuffled slice_def)
  from T f have c: "fetchCategoryVideosFromApi demo_world 1 (js ''b'') (js ''b'') all_categories = Return []"
    by blast
  from E have d: "GET_category (sample_world [] (\<lambda>i. Hangs)) None (Num 25) (Num 0)
       = \<lparr> code = 200, message = msg_no_sources, list = [] \<rparr>"
    by blast
  show ?thesis
    using overflow_sites overflow_survives overflow_length overflow_produced o1 o2 f b c d by blast
qed

section \<open>Splitting and matching\<close>

lemma largest_group_Cons:
  "largest_group (x # L) = (if foldr max (map length L) 0 \<le> length x then x else largest_group L)"
  by (auto simp: largest_group_def max_def)

lemma largest_group_zero: "foldr max (map length L) 0 = 0 \<Longrightarrow> largest_group L = []"
proof (induction L)
  case Nil
  show ?case by (simp add: largest_group_def)
next
  case (Cons x L)
  from Cons.prems have m: "max (length x) (foldr max (map length L) 0) = 0" by simp
  then have "length x = 0" and "foldr max (map length L) 0 = 0" by arith+
  then show ?case by (simp add: largest_group_Cons)
qed

lemma foldl_pick_group:
  "foldl pick_group acc urls
     = (if foldr max (map length (map match_all urls)) 0 \<le> length acc then acc
        else largest_group (map match_all urls))"
proof (induction urls arbitrary: acc)
  case Nil
  show ?case by simp
next
  case (Cons u urls)
  show ?case
  proof (cases "length acc < length (match_all u)")
    case True
    then have "pick_group acc u = match_all u" by (simp add: pick_group_def)
    then have "foldl pick_group acc (u # urls) = foldl pick_group (match_all u) urls" by simp
    also have "\<dots> = (if foldr max (map length (map match_all urls)) 0 \<le> length (match_all u)
        then match_all u else largest_group (map match_all urls))"
      by (rule Cons.IH)
    finally show ?thesis using True by (simp add: largest_group_Cons)
  next
    case False
    then have "pick_group acc u = acc" by (simp add: pick_group_def)
    then have "foldl pick_group acc (u # urls) = foldl pick_group acc urls" by simp
    also have "\<dots> = (if foldr max (map length (map match_all urls)) 0 \<le> length acc
        then acc else largest_group (map match_all urls))"
      by (rule Cons.IH)
    finally show ?thesis using False by (auto simp: largest_group_Cons)
  qed
qed

lemma select_largest_group: "foldl pick_group [] urls = largest_group (map match_all urls)"
  by (simp add: foldl_pick_group largest_group_zero)

lemma indexOf_takeWhile:
  "indexOf s c = (if c \<in> set s then int (length (takeWhile (\<lambda>x. x \<noteq> c) s)) else - 1)"
  by (induction s) (auto simp: Let_def)

lemma clean_link_strip: "clean_link m = strip_annotation m"
proof (cases "40 \<in> set (drop 1 m)")
  case True
  have "take (length (takeWhile (\<lambda>x. x \<noteq> 40) (drop 1 m))) (drop 1 m) = takeWhile (\<lambda>x. x \<noteq> 40) (drop 1 m)"
    by (rule takeWhile_eq_take [symmetric])
  with True show ?thesis
    by (simp add: clean_link_def strip_annotation_def indexOf_takeWhile Let_def)
next
  case False
  then have tw: "takeWhile (\<lambda>x. x \<noteq> 40) (drop 1 m) = drop 1 m"
    by (intro takeWhile_eq_all_conv [THEN iffD2]) auto
  show ?thesis
    unfolding clean_link_def strip_annotation_def Let_def indexOf_takeWhile tw
    using False by simp
qed

lemma extract_scenario:
  "extractEpisodes (Some scenario) = [js ''https://a.com/1.m3u8'', js ''https://a.com/2.m3u8'']"
  by (simp add: scenario_def extractEpisodes_def js_def split_dollars_def startsWith_def pick_group_def
      match_at_def url_char_def is_space_def new_Set_def set_add_def clean_link_def)

lemma startsWith_iff: "startsWith p s = (\<exists>b. s = p @ b)"
proof
  assume "startsWith p s"
  then have "s = p @ drop (length p) s"
    by (metis append_take_drop_id startsWith_def)
  then show "\<exists>b. s = p @ b" ..
next
  assume "\<exists>b. s = p @ b"
  then show "startsWith p s" by (auto simp: startsWith_def)
qed

lemma includes_iff: "includes_str hay needle = (\<exists>a b. hay = a @ needle @ b)"
proof (induction hay)
  case Nil
  show ?case by auto
next
  case (Cons c cs)
  show ?case
  proof
    assume "includes_str (c # cs) needle"
    then consider "startsWith needle (c # cs)" | "includes_str cs needle" by auto
    then show "\<exists>a b. c # cs = a @ needle @ b"
    proof cases
      case 1
      then obtain b where "c # cs = needle @ b" unfolding startsWith_iff ..
      then have "c # cs = [] @ needle @ b" by simp
      then show ?thesis by blast
    next
      case 2
      then obtain a b where "cs = a @ needle @ b" using Cons.IH by blast
      then have "c # cs = (c # a) @ needle @ b" by simp
      then show ?thesis by blast
    qed
  next
    assume "\<exists>a b. c # cs = a @ needle @ b"
    then obtain a b where ab: "c # cs = a @ needle @ b" by blast
    show "includes_str (c # cs) needle"
    proof (cases a)
      case Nil
      with ab have "startsWith needle (c # cs)" unfolding startsWith_iff by auto
      then show ?thesis by simp
    next
      case (Cons x a')
      with ab have "cs = a' @ needle @ b" by simp
      then have "includes_str cs needle" using Cons.IH by blast
      then show ?thesis by simp
    qed
  qed
qed

lemma sep_simp: "sep = [36, 36, 36]"
  by (simp add: sep_def js_def)

lemma split_from_pieces:
  "sep_free_upto (length cur) (cur @ s) \<Longrightarrow> g \<in> set (split_from cur s) \<Longrightarrow> \<not> includes_str g sep"
proof (induction cur s rule: split_from.induct)
  case (1 cur)
  then have g: "g = cur" by simp
  show ?case
  proof
    assume "includes_str g sep"
    then obtain a b where ab: "cur = a @ sep @ b" unfolding includes_iff g by blast
    then have "cur @ [] = a @ sep @ b" by simp
    with "1.prems"(1) have "length cur \<le> length a" unfolding sep_free_upto_def by blast
    with ab show False by (simp add: sep_simp)
  qed
next
  case (2 cur c cs)
  show ?case
  proof (cases "startsWith (js ''$$$'') (c # cs)")
    case True
    with "2.prems"(2) consider "g = cur" | "g \<in> set (split_from [] (drop 2 cs))" by auto
    then show ?thesis
    proof cases
      case 1
      show ?thesis
      proof
        assume "includes_str g sep"
        then obtain a b where ab: "cur = a @ sep @ b" unfolding includes_iff 1 by blast
        then have "cur @ c # cs = a @ sep @ (b @ c # cs)" by simp
        with "2.prems"(1) have "length cur \<le> length a" unfolding sep_free_upto_def by blast
        with ab show False by (simp add: sep_simp)
      qed
    next
      case 2
      have "sep_free_upto (length ([] :: jsstring)) ([] @ drop 2 cs)" by (simp add: sep_free_upto_def)
      with "2.IH"(1) [OF True] 2 show ?thesis by blast
    qed
  next
    case False
    with "2.prems"(2) have g: "g \<in> set (split_from (cur @ [c]) cs)" by simp
    have "sep_free_upto (length (cur @ [c])) ((cur @ [c]) @ cs)"
      unfolding sep_free_upto_def
    proof (intro allI impI)
      fix a b
      assume ab: "(cur @ [c]) @ cs = a @ sep @ b"
      then have ab': "cur @ c # cs = a @ sep @ b" by simp
      with "2.prems"(1) have le: "length cur \<le> length a" unfolding sep_free_upto_def by blast
      have "length a \<noteq> length cur"
      proof
        assume "length a = length cur"
        with ab' have "c # cs = sep @ b" by (simp add: append_eq_append_conv)
        then have "startsWith (js ''$$$'') (c # cs)" unfolding startsWith_iff sep_def by blast
        with False show False by simp
      qed
      with le show "length (cur @ [c]) \<le> length a" by simp
    qed
    with "2.IH"(2) [OF False] g show ?thesis by blast
  qed
qed

lemma split_dollars_pieces: "g \<in> set (split_dollars p) \<Longrightarrow> \<not> includes_str g sep"
  unfolding split_dollars_def
  by (rule split_from_pieces [where cur = "[]"]) (simp_all add: sep_free_upto_def)

lemma split_from_no_sep: "\<not> includes_str s sep \<Longrightarrow> split_from cur s = [cur @ s]"
proof (induction s arbitrary: cur)
  case Nil
  show ?case by simp
next
  case (Cons c cs)
  from Cons.prems have "\<not> startsWith (js ''$$$'') (c # cs)" and "\<not> includes_str cs sep"
    by (simp_all add: sep_def)
  then show ?case using Cons.IH [of "cur @ [c]"] by simp
qed

lemma split_from_sep:
  "sep_free_upto (length s) (s @ sep @ t) \<Longrightarrow> split_from cur (s @ sep @ t) = (cur @ s) # split_from [] t"
proof (induction s arbitrary: cur)
  case Nil
  show ?case by (simp add: sep_simp startsWith_def js_def)
next
  case (Cons c s)
  have "\<not> startsWith (js ''$$$'') (c # s @ sep @ t)"
  proof
    assume "startsWith (js ''$$$'') (c # s @ sep @ t)"
    then obtain b where "(c # s) @ sep @ t = [] @ sep @ b"
      unfolding startsWith_iff sep_def by auto
    with Cons.prems have "length (c # s) \<le> length ([] :: jsstring)"
      unfolding sep_free_upto_def by blast
    then show False by simp
  qed
  moreover have "sep_free_upto (length s) (s @ sep @ t)"
    unfolding sep_free_upto_def
  proof (intro allI impI)
    fix a b
    assume "s @ sep @ t = a @ sep @ b"
    then have "(c # s) @ sep @ t = (c # a) @ sep @ b" by simp
    with Cons.prems have "length (c # s) \<le> length (c # a)" unfolding sep_free_upto_def by blast
    then show "length s \<le> length a" by simp
  qed
  ultimately show ?case using Cons.IH [of "cur @ [c]"] by simp
qed

lemma startsWith_append: "startsWith p s \<Longrightarrow> startsWith p (s @ t)"
  unfolding startsWith_iff by auto

lemma lazy_tail_sound:
  "lazy_tail acc s = Some (m, r) \<Longrightarrow>
   \<exists>b. s = b @ js ''.m3u8'' @ r \<and> m = acc @ b @ js ''.m3u8''
     \<and> lazy_tail acc (b @ js ''.m3u8'') = Some (m, [])"
proof (induction acc s rule: lazy_tail.induct)
  case (1 acc)
  then show ?case by simp
next
  case (2 acc c cs)
  show ?case
  proof (cases "startsWith (js ''.m3u8'') (c # cs)")
    case True
    with "2.prems" have m: "m = acc @ js ''.m3u8''" and r: "r = drop 4 cs" by simp_all
    from True obtain b0 where b0: "c # cs = js ''.m3u8'' @ b0" unfolding startsWith_iff ..
    then have "drop 4 cs = b0" by (simp add: js_def)
    with b0 r have "c # cs = [] @ js ''.m3u8'' @ r" by simp
    moreover have "lazy_tail acc ([] @ js ''.m3u8'') = Some (acc @ js ''.m3u8'', [])"
      by (simp add: js_def startsWith_def)
    ultimately show ?thesis using m by blast
  next
    case False
    with "2.prems" have uc: "url_char c" and rec: "lazy_tail (acc @ [c]) cs = Some (m, r)"
      by (simp_all split: if_splits)
    from "2.IH" [OF False uc rec] obtain b where
      cs: "cs = b @ js ''.m3u8'' @ r" and m: "m = (acc @ [c]) @ b @ js ''.m3u8''"
      and lt: "lazy_tail (acc @ [c]) (b @ js ''.m3u8'') = Some (m, [])"
      by blast
    have "\<not> startsWith (js ''.m3u8'') (c # b @ js ''.m3u8'')"
    proof
      assume "startsWith (js ''.m3u8'') (c # b @ js ''.m3u8'')"
      then have "startsWith (js ''.m3u8'') ((c # b @ js ''.m3u8'') @ r)" by (rule startsWith_append)
      with False cs show False by simp
    qed
    then have "lazy_tail acc ((c # b) @ js ''.m3u8'') = Some (m, [])"
      using uc lt by simp
    moreover have "c # cs = (c # b) @ js ''.m3u8'' @ r" using cs by simp
    moreover have "m = acc @ (c # b) @ js ''.m3u8''" using m by simp
    ultimately show ?thesis by blast
  qed
qed

lemma url_body_sound:
  "url_body pre s = Some (m, r) \<Longrightarrow>
   \<exists>b. b \<noteq> [] \<and> s = b @ js ''.m3u8'' @ r \<and> m = pre @ b @ js ''.m3u8''
     \<and> url_body pre (b @ js ''.m3u8'') = Some (m, [])"
proof (cases s)
  case Nil
  assume "url_body pre s = Some (m, r)"
  with Nil show ?thesis by simp
next
  case (Cons c cs)
  assume "url_body pre s = Some (m, r)"
  with Cons have uc: "url_char c" and lt: "lazy_tail (pre @ [c]) cs = Some (m, r)"
    by (simp_all split: if_splits)
  from lazy_tail_sound [OF lt] obtain b where
    cs: "cs = b @ js ''.m3u8'' @ r" and m: "m = (pre @ [c]) @ b @ js ''.m3u8''"
    and l: "lazy_tail (pre @ [c]) (b @ js ''.m3u8'') = Some (m, [])"
    by blast
  have "url_body pre ((c # b) @ js ''.m3u8'') = Some (m, [])" using uc l by simp
  moreover have "s = (c # b) @ js ''.m3u8'' @ r" using Cons cs by simp
  moreover have "m = pre @ (c # b) @ js ''.m3u8''" using m by simp
  ultimately show ?thesis by blast
qed

lemma match_at_sound:
  assumes "match_at s = Some (m, r)"
  shows "s = m @ r \<and> match_at m = Some (m, [])
    \<and> (\<exists>pre b. (pre = js ''$http://'' \<or> pre = js ''$https://'') \<and> b \<noteq> [] \<and> m = pre @ b @ js ''.m3u8'')"
proof (cases "startsWith (js ''$https://'') s")
  case True
  with assms have ub: "url_body (js ''$https://'') (drop 9 s) = Some (m, r)"
    by (simp add: match_at_def)
  from True obtain t where s: "s = js ''$https://'' @ t" unfolding startsWith_iff ..
  then have d: "drop 9 s = t" by (simp add: js_def)
  from url_body_sound [OF ub] d obtain b where
    b: "b \<noteq> []" and t: "t = b @ js ''.m3u8'' @ r" and m: "m = js ''$https://'' @ b @ js ''.m3u8''"
    and u: "url_body (js ''$https://'') (b @ js ''.m3u8'') = Some (m, [])"
    by auto
  have sw: "startsWith (js ''$https://'') m" unfolding startsWith_iff m by blast
  have "drop 9 m = b @ js ''.m3u8''" unfolding m by (simp add: js_def)
  with sw u have "match_at m = Some (m, [])" by (simp add: match_at_def)
  moreover have "s = m @ r" using s t m by simp
  ultimately show ?thesis using b m by blast
next
  case False
  with assms have sw: "startsWith (js ''$http://'') s"
    and ub: "url_body (js ''$http://'') (drop 8 s) = Some (m, r)"
    by (simp_all add: match_at_def split: if_splits)
  from sw obtain t where s: "s = js ''$http://'' @ t" unfolding startsWith_iff ..
  then have d: "drop 8 s = t" by (simp add: js_def)
  from url_body_sound [OF ub] d obtain b where
    b: "b \<noteq> []" and t: "t = b @ js ''.m3u8'' @ r" and m: "m = js ''$http://'' @ b @ js ''.m3u8''"
    and u: "url_body (js ''$http://'') (b @ js ''.m3u8'') = Some (m, [])"
    by auto
  have sw: "startsWith (js ''$http://'') m" unfolding startsWith_iff m by blast
  have nsw: "\<not> startsWith (js ''$https://'') m" unfolding m by (simp add: startsWith_def js_def)
  have "drop 8 m = b @ js ''.m3u8''" unfolding m by (simp add: js_def)
  with sw nsw u have "match_at m = Some (m, [])" by (simp add: match_at_def)
  moreover have "s = m @ r" using s t m by simp
  ultimately show ?thesis using b m by blast
qed

lemma match_all_sound:
  "m \<in> set (match_all g) \<Longrightarrow>
   (\<exists>a b. g = a @ m @ b) \<and> match_at m = Some (m, [])
   \<and> (\<exists>pre b. (pre = js ''$http://'' \<or> pre = js ''$https://'') \<and> b \<noteq> [] \<and> m = pre @ b @ js ''.m3u8'')"
proof (induction g rule: match_all.induct)
  case 1
  then show ?case by simp
next
  case (2 c cs)
  show ?case
  proof (cases "match_at (c # cs)")
    case None
    with "2.prems" have "m \<in> set (match_all cs)" by simp
    from "2.IH"(1) [OF None this] obtain a b where "cs = a @ m @ b"
      and rest: "match_at m = Some (m, [])"
        "\<exists>pre b. (pre = js ''$http://'' \<or> pre = js ''$https://'') \<and> b \<noteq> [] \<and> m = pre @ b @ js ''.m3u8''"
      by blast
    then have "c # cs = (c # a) @ m @ b" by simp
    with rest show ?thesis by blast
  next
    case (Some mr)
    obtain m' r where mr: "mr = (m', r)" by (cases mr)
    from Some mr have ma: "match_at (c # cs) = Some (m', r)" by simp
    note snd = match_at_sound [OF ma]
    from "2.prems" ma consider "m = m'" | "m \<in> set (match_all r)" by auto
    then show ?thesis
    proof cases
      case 1
      from snd have "c # cs = [] @ m' @ r" by simp
      with snd 1 show ?thesis by blast
    next
      case 2
      from "2.IH"(2) [OF Some mr [symmetric] 2] obtain a b where "r = a @ m @ b"
        and rest: "match_at m = Some (m, [])"
          "\<exists>pre b. (pre = js ''$http://'' \<or> pre = js ''$https://'') \<and> b \<noteq> [] \<and> m = pre @ b @ js ''.m3u8''"
        by blast
      with snd have "c # cs = (m' @ a) @ m @ b" by simp
      with rest show ?thesis by blast
    qed
  qed
qed

lemma sep_free_boundary:
  assumes "\<not> includes_str s sep" and "s \<noteq> []" and "last s \<noteq> 36"
  shows "sep_free_upto (length s) (s @ sep @ t)"
  unfolding sep_free_upto_def
proof (intro allI impI)
  fix a b
  assume eq: "s @ sep @ t = a @ sep @ b"
  show "length s \<le> length a"
  proof (rule ccontr)
    assume "\<not> length s \<le> length a"
    then have lt: "length a < length s" by simp
    from eq obtain us where "s = a @ us \<and> us @ sep @ t = sep @ b \<or> s @ us = a \<and> sep @ t = us @ sep @ b"
      unfolding append_eq_append_conv2 by blast
    with lt have s: "s = a @ us" and us: "us @ sep @ t = sep @ b" by auto
    from s lt have ne: "us \<noteq> []" by auto
    show False
    proof (cases us)
      case Nil
      with ne show False by simp
    next
      case (Cons x us1)
      show False
      proof (cases us1)
        case Nil
        with Cons us have "x = 36" by (simp add: sep_simp)
        with Cons Nil s assms(3) show False by simp
      next
        case (Cons y us2)
        note c2 = Cons
        show False
        proof (cases us2)
          case Nil
          with \<open>us = x # us1\<close> c2 us have "y = 36" by (simp add: sep_simp)
          with \<open>us = x # us1\<close> c2 Nil s assms(3) show False by simp
        next
          case (Cons z us3)
          with \<open>us = x # us1\<close> c2 us have "x = 36 \<and> y = 36 \<and> z = 36" by (simp add: sep_simp)
          with \<open>us = x # us1\<close> c2 Cons s have "s = a @ sep @ us3" by (simp add: sep_simp)
          then have "includes_str s sep" unfolding includes_iff by blast
          with assms(1) show False by simp
        qed
      qed
    qed
  qed
qed

lemma join_dollars_Cons2: "join_dollars (u # v # us) = u @ sep @ join_dollars (v # us)"
  by (simp add: sep_def)

lemma split_join:
  "ms \<noteq> [] \<Longrightarrow> (\<And>m. m \<in> set ms \<Longrightarrow> piece m) \<Longrightarrow> split_dollars (join_dollars ms) = ms"
proof (induction ms rule: join_dollars.induct)
  case 1
  then show ?case by simp
next
  case (2 u)
  then have "\<not> includes_str u sep" by (simp add: piece_def)
  then show ?case by (simp add: split_dollars_def split_from_no_sep)
next
  case (3 u v us)
  have pu: "piece u" using "3.prems"(2) by simp
  then have "sep_free_upto (length u) (u @ sep @ join_dollars (v # us))"
    unfolding piece_def by (intro sep_free_boundary) auto
  then have "split_from [] (u @ sep @ join_dollars (v # us)) = ([] @ u) # split_from [] (join_dollars (v # us))"
    by (rule split_from_sep)
  moreover have "split_dollars (join_dollars (v # us)) = v # us"
    using "3.prems"(2) by (intro "3.IH") auto
  ultimately show ?case
    unfolding join_dollars_Cons2 by (simp add: split_dollars_def)
qed

lemma join_dollars_nonempty: "ms \<noteq> [] \<Longrightarrow> hd ms \<noteq> [] \<Longrightarrow> join_dollars ms \<noteq> []"
  by (induction ms rule: join_dollars.induct) auto

lemma includes_substring:
  "includes_str m n \<Longrightarrow> includes_str (a @ m @ b) n"
proof -
  assume "includes_str m n"
  then obtain x y where "m = x @ n @ y" unfolding includes_iff by blast
  then have "a @ m @ b = (a @ x) @ n @ (y @ b)" by simp
  then show ?thesis unfolding includes_iff by blast
qed

lemma match_is_piece:
  assumes "g \<in> set (split_dollars p)" and "m \<in> set (match_all g)"
  shows "piece m \<and> js ''$'' @ drop 1 m = m \<and> match_all m = [m]"
proof -
  from match_all_sound [OF assms(2)] obtain a b pre body where
    g: "g = a @ m @ b" and ma: "match_at m = Some (m, [])"
    and pre: "pre = js ''$http://'' \<or> pre = js ''$https://''" and m: "m = pre @ body @ js ''.m3u8''"
    by blast
  have "\<not> includes_str g sep" using assms(1) by (rule split_dollars_pieces)
  with g have ns: "\<not> includes_str m sep" using includes_substring by blast
  from pre m have ne: "m \<noteq> []" and hd: "js ''$'' @ drop 1 m = m" and l: "last m = 56"
    by (auto simp: js_def)
  from ne obtain c cs where ccs: "m = c # cs" by (cases m) auto
  with ma have "match_all m = [m]" by simp
  with ns ne hd l show ?thesis by (simp add: piece_def)
qed

lemma largest_group_mem: "largest_group L = [] \<or> largest_group L \<in> set L"
proof (cases "filter (\<lambda>g. length g = foldr max (map length L) 0) L")
  case Nil
  then show ?thesis by (simp add: largest_group_def)
next
  case (Cons g gs)
  then have "g \<in> set (filter (\<lambda>g. length g = foldr max (map length L) 0) L)" by simp
  then have "g \<in> set L" by simp
  with Cons show ?thesis by (simp add: largest_group_def)
qed

lemma selected_are_pieces:
  assumes "m \<in> set (largest_group (map match_all (split_dollars p)))"
  shows "piece m \<and> js ''$'' @ drop 1 m = m \<and> match_all m = [m]"
proof -
  from largest_group_mem [of "map match_all (split_dollars p)"] assms
  obtain g where "g \<in> set (split_dollars p)" and "m \<in> set (match_all g)" by auto
  then show ?thesis by (rule match_is_piece)
qed

lemma clean_link_untouched: "40 \<notin> set m \<Longrightarrow> clean_link m = drop 1 m"
proof -
  assume "40 \<notin> set m"
  then have "40 \<notin> set (drop 1 m)" by (auto dest: in_set_dropD)
  then show ?thesis by (simp add: clean_link_def indexOf_takeWhile)
qed

lemma foldl_pick_single:
  "(\<And>m. m \<in> set ms \<Longrightarrow> match_all m = [m]) \<Longrightarrow> foldl pick_group [m1] ms = [m1]"
  by (induction ms) (simp_all add: pick_group_def)

section \<open>The split and the matches, from the outside\<close>

lemma m3u8_match_iff:
  "m3u8_match m = (\<exists>body. m3u8_body body
      \<and> (m = js ''$http://'' @ body @ js ''.m3u8'' \<or> m = js ''$https://'' @ body @ js ''.m3u8''))"
proof
  assume "m3u8_match m"
  then obtain pre where pre: "pre = js ''$http://'' \<or> pre = js ''$https://''"
    and p: "take (length pre) m = pre" and l: "length pre + 5 \<le> length m"
    and e: "drop (length m - 5) m = js ''.m3u8''"
    and b: "m3u8_body (take (length m - length pre - 5) (drop (length pre) m))"
    unfolding m3u8_match_def by auto
  let ?body = "take (length m - length pre - 5) (drop (length pre) m)"
  have "m = take (length pre) m @ drop (length pre) m" by simp
  also have "drop (length pre) m = ?body @ drop (length m - length pre - 5) (drop (length pre) m)"
    by (rule append_take_drop_id [symmetric])
  also have "drop (length m - length pre - 5) (drop (length pre) m) = drop (length m - 5) m"
    using l by simp
  finally have "m = pre @ ?body @ js ''.m3u8''" using p e by simp
  with pre b show "\<exists>body. m3u8_body body
      \<and> (m = js ''$http://'' @ body @ js ''.m3u8'' \<or> m = js ''$https://'' @ body @ js ''.m3u8'')"
    by blast
next
  assume "\<exists>body. m3u8_body body
      \<and> (m = js ''$http://'' @ body @ js ''.m3u8'' \<or> m = js ''$https://'' @ body @ js ''.m3u8'')"
  then obtain body where b: "m3u8_body body"
    and m: "m = js ''$http://'' @ body @ js ''.m3u8'' \<or> m = js ''$https://'' @ body @ js ''.m3u8''"
    by blast
  from m show "m3u8_match m"
  proof
    assume "m = js ''$http://'' @ body @ js ''.m3u8''"
    then show ?thesis using b by (simp add: m3u8_match_def js_def)
  next
    assume "m = js ''$https://'' @ body @ js ''.m3u8''"
    then show ?thesis using b by (simp add: m3u8_match_def js_def)
  qed
qed

lemma take_append_fixed: "length y = n \<Longrightarrow> take n (x @ y @ r) = take n (x @ y)"
  by simp

lemma lazy_tail_complete:
  assumes "list_all url_char b"
    and "\<forall>k<length b. \<not> startsWith (js ''.m3u8'') (drop k (b @ js ''.m3u8'' @ r))"
  shows "lazy_tail acc (b @ js ''.m3u8'' @ r) = Some (acc @ b @ js ''.m3u8'', r)"
  using assms
proof (induction b arbitrary: acc)
  case Nil
  show ?case by (simp add: js_def startsWith_def)
next
  case (Cons c b)
  have "0 < length (c # b)" by simp
  with Cons.prems(2) have "\<not> startsWith (js ''.m3u8'') (drop 0 ((c # b) @ js ''.m3u8'' @ r))"
    by blast
  then have ns: "\<not> startsWith (js ''.m3u8'') (c # b @ js ''.m3u8'' @ r)" by simp
  from Cons.prems(1) have uc: "url_char c" and ub: "list_all url_char b" by simp_all
  have mn: "\<forall>k<length b. \<not> startsWith (js ''.m3u8'') (drop k (b @ js ''.m3u8'' @ r))"
  proof (intro allI impI)
    fix k assume "k < length b"
    then have "Suc k < length (c # b)" by simp
    with Cons.prems(2) have "\<not> startsWith (js ''.m3u8'') (drop (Suc k) ((c # b) @ js ''.m3u8'' @ r))"
      by blast
    then show "\<not> startsWith (js ''.m3u8'') (drop k (b @ js ''.m3u8'' @ r))" by simp
  qed
  have "lazy_tail acc ((c # b) @ js ''.m3u8'' @ r) = lazy_tail (acc @ [c]) (b @ js ''.m3u8'' @ r)"
    using ns uc by simp
  also have "\<dots> = Some ((acc @ [c]) @ b @ js ''.m3u8'', r)"
    using ub mn by (rule Cons.IH)
  finally show ?case by simp
qed

lemma lazy_tail_shape:
  "lazy_tail acc s = Some (m, r) \<Longrightarrow>
   \<exists>b. s = b @ js ''.m3u8'' @ r \<and> m = acc @ b @ js ''.m3u8'' \<and> list_all url_char b
     \<and> (\<forall>k<length b. \<not> startsWith (js ''.m3u8'') (drop k s))"
proof (induction acc s rule: lazy_tail.induct)
  case (1 acc)
  then show ?case by simp
next
  case (2 acc c cs)
  show ?case
  proof (cases "startsWith (js ''.m3u8'') (c # cs)")
    case True
    with "2.prems" have m: "m = acc @ js ''.m3u8''" and r: "r = drop 4 cs" by simp_all
    from True obtain b0 where b0: "c # cs = js ''.m3u8'' @ b0" unfolding startsWith_iff ..
    then have "drop 4 cs = b0" by (simp add: js_def)
    with b0 r have "c # cs = [] @ js ''.m3u8'' @ r" by simp
    moreover have "m = acc @ [] @ js ''.m3u8''" using m by simp
    moreover have "list_all url_char []" by simp
    moreover have "\<forall>k<length ([] :: jsstring). \<not> startsWith (js ''.m3u8'') (drop k (c # cs))" by simp
    ultimately show ?thesis by blast
  next
    case False
    with "2.prems" have uc: "url_char c" and rec: "lazy_tail (acc @ [c]) cs = Some (m, r)"
      by (simp_all split: if_splits)
    from "2.IH" [OF False uc rec] obtain b where
      cs: "cs = b @ js ''.m3u8'' @ r" and m: "m = (acc @ [c]) @ b @ js ''.m3u8''"
      and ub: "list_all url_char b"
      and mn: "\<forall>k<length b. \<not> startsWith (js ''.m3u8'') (drop k cs)"
      by blast
    have "\<forall>k<length (c # b). \<not> startsWith (js ''.m3u8'') (drop k (c # cs))"
    proof (intro allI impI)
      fix k assume k: "k < length (c # b)"
      show "\<not> startsWith (js ''.m3u8'') (drop k (c # cs))"
      proof (cases k)
        case 0
        with False show ?thesis by simp
      next
        case (Suc j)
        with k mn show ?thesis by simp
      qed
    qed
    moreover have "c # cs = (c # b) @ js ''.m3u8'' @ r" using cs by simp
    moreover have "m = acc @ (c # b) @ js ''.m3u8''" using m by simp
    moreover have "list_all url_char (c # b)" using uc ub by simp
    ultimately show ?thesis by blast
  qed
qed

lemma startsWith_m3u8_take:
  "startsWith (js ''.m3u8'') (x @ js ''.m3u8'' @ r) = (take 5 (x @ js ''.m3u8'') = js ''.m3u8'')"
proof -
  have l: "length (js ''.m3u8'') = 5" by (simp add: js_def)
  then have t: "take 5 (x @ js ''.m3u8'' @ r) = take 5 (x @ js ''.m3u8'')" by (rule take_append_fixed)
  show ?thesis unfolding startsWith_def l t ..
qed

lemma url_char_class: "list_all url_char b = list_all (\<lambda>c. c \<noteq> 34 \<and> c \<noteq> 39 \<and> \<not> is_space c) b"
  by (simp add: url_char_def [abs_def])

lemma body_minimal:
  "(\<not> list_ex (\<lambda>k. take 5 (drop k (c # b) @ js ''.m3u8'') = js ''.m3u8'') [1..<length (c # b)])
     = (\<forall>k<length b. \<not> startsWith (js ''.m3u8'') (drop k (b @ js ''.m3u8'' @ r)))"
proof -
  let ?P = "\<lambda>k. take 5 (drop k (c # b) @ js ''.m3u8'') = js ''.m3u8''"
  have step: "startsWith (js ''.m3u8'') (drop k (b @ js ''.m3u8'' @ r)) = ?P (Suc k)"
    if "k < length b" for k
  proof -
    from that have "drop k (b @ js ''.m3u8'' @ r) = drop k b @ js ''.m3u8'' @ r" by simp
    then show ?thesis by (simp add: startsWith_m3u8_take)
  qed
  have "list_ex ?P [1..<length (c # b)] = (\<exists>k<length b. ?P (Suc k))"
  proof
    assume "list_ex ?P [1..<length (c # b)]"
    then obtain k where k: "1 \<le> k" "k < Suc (length b)" "?P k" unfolding list_ex_iff by auto
    then obtain j where "k = Suc j" by (cases k) auto
    with k show "\<exists>k<length b. ?P (Suc k)" by auto
  next
    assume "\<exists>k<length b. ?P (Suc k)"
    then obtain k where k: "k < length b" and p: "?P (Suc k)" by blast
    from k have "Suc k \<in> set [1..<length (c # b)]" by auto
    with p show "list_ex ?P [1..<length (c # b)]" unfolding list_ex_iff by blast
  qed
  also have "\<dots> = (\<exists>k<length b. startsWith (js ''.m3u8'') (drop k (b @ js ''.m3u8'' @ r)))"
    using step by blast
  finally show ?thesis by blast
qed

lemma url_body_complete:
  assumes "m3u8_body body"
  shows "url_body pre (body @ js ''.m3u8'' @ r) = Some (pre @ body @ js ''.m3u8'', r)"
proof -
  from assms obtain c b where body: "body = c # b" unfolding m3u8_body_def by (cases body) auto
  from assms have uc: "url_char c" and ub: "list_all url_char b"
    unfolding body m3u8_body_def url_char_class [symmetric] by simp_all
  from assms have mn: "\<forall>k<length b. \<not> startsWith (js ''.m3u8'') (drop k (b @ js ''.m3u8'' @ r))"
    unfolding body m3u8_body_def using body_minimal [of c b r] by blast
  have "url_body pre (body @ js ''.m3u8'' @ r) = lazy_tail (pre @ [c]) (b @ js ''.m3u8'' @ r)"
    using uc by (simp add: body)
  also have "\<dots> = Some ((pre @ [c]) @ b @ js ''.m3u8'', r)"
    using ub mn by (rule lazy_tail_complete)
  finally show ?thesis by (simp add: body)
qed

lemma url_body_shape:
  assumes "url_body pre s = Some (m, r)"
  shows "\<exists>body. m3u8_body body \<and> s = body @ js ''.m3u8'' @ r \<and> m = pre @ body @ js ''.m3u8''"
proof (cases s)
  case Nil
  with assms show ?thesis by simp
next
  case (Cons c cs)
  with assms have uc: "url_char c" and lt: "lazy_tail (pre @ [c]) cs = Some (m, r)"
    by (simp_all split: if_splits)
  from lazy_tail_shape [OF lt] obtain b where
    cs: "cs = b @ js ''.m3u8'' @ r" and m: "m = (pre @ [c]) @ b @ js ''.m3u8''"
    and ub: "list_all url_char b"
    and mn: "\<forall>k<length b. \<not> startsWith (js ''.m3u8'') (drop k cs)"
    by blast
  from uc ub have "list_all (\<lambda>c. c \<noteq> 34 \<and> c \<noteq> 39 \<and> \<not> is_space c) (c # b)"
    unfolding url_char_class [symmetric] by simp
  moreover from mn have
    "\<not> list_ex (\<lambda>k. take 5 (drop k (c # b) @ js ''.m3u8'') = js ''.m3u8'') [1..<length (c # b)]"
    unfolding cs using body_minimal [of c b r] by blast
  ultimately have "m3u8_body (c # b)" unfolding m3u8_body_def by blast
  moreover have "s = (c # b) @ js ''.m3u8'' @ r" using Cons cs by simp
  moreover have "m = pre @ (c # b) @ js ''.m3u8''" using m by simp
  ultimately show ?thesis by blast
qed

lemma match_at_complete:
  assumes "m3u8_match m"
  shows "match_at (m @ r) = Some (m, r)"
proof -
  from assms obtain body where b: "m3u8_body body"
    and m: "m = js ''$http://'' @ body @ js ''.m3u8'' \<or> m = js ''$https://'' @ body @ js ''.m3u8''"
    unfolding m3u8_match_iff by blast
  from m show ?thesis
  proof
    assume m: "m = js ''$http://'' @ body @ js ''.m3u8''"
    have sw: "startsWith (js ''$http://'') (m @ r)" unfolding startsWith_iff m by simp
    have nsw: "\<not> startsWith (js ''$https://'') (m @ r)"
      unfolding m by (simp add: startsWith_def js_def)
    have d: "drop 8 (m @ r) = body @ js ''.m3u8'' @ r" unfolding m by (simp add: js_def)
    from sw nsw have "match_at (m @ r) = url_body (js ''$http://'') (drop 8 (m @ r))"
      by (simp add: match_at_def)
    also have "\<dots> = Some (js ''$http://'' @ body @ js ''.m3u8'', r)"
      unfolding d using b by (rule url_body_complete)
    finally show ?thesis unfolding m .
  next
    assume m: "m = js ''$https://'' @ body @ js ''.m3u8''"
    have sw: "startsWith (js ''$https://'') (m @ r)" unfolding startsWith_iff m by simp
    have d: "drop 9 (m @ r) = body @ js ''.m3u8'' @ r" unfolding m by (simp add: js_def)
    from sw have "match_at (m @ r) = url_body (js ''$https://'') (drop 9 (m @ r))"
      by (simp add: match_at_def)
    also have "\<dots> = Some (js ''$https://'' @ body @ js ''.m3u8'', r)"
      unfolding d using b by (rule url_body_complete)
    finally show ?thesis unfolding m .
  qed
qed

lemma match_at_shape:
  assumes "match_at s = Some (m, r)"
  shows "s = m @ r \<and> m3u8_match m"
proof (cases "startsWith (js ''$https://'') s")
  case True
  with assms have ub: "url_body (js ''$https://'') (drop 9 s) = Some (m, r)"
    by (simp add: match_at_def)
  from True obtain t where s: "s = js ''$https://'' @ t" unfolding startsWith_iff ..
  then have d: "drop 9 s = t" by (simp add: js_def)
  from url_body_shape [OF ub] d obtain body where
    b: "m3u8_body body" and t: "t = body @ js ''.m3u8'' @ r"
    and m: "m = js ''$https://'' @ body @ js ''.m3u8''"
    by auto
  from b m have "m3u8_match m" unfolding m3u8_match_iff by blast
  moreover have "s = m @ r" using s t m by simp
  ultimately show ?thesis by blast
next
  case False
  with assms have sw: "startsWith (js ''$http://'') s"
    and ub: "url_body (js ''$http://'') (drop 8 s) = Some (m, r)"
    by (simp_all add: match_at_def split: if_splits)
  from sw obtain t where s: "s = js ''$http://'' @ t" unfolding startsWith_iff ..
  then have d: "drop 8 s = t" by (simp add: js_def)
  from url_body_shape [OF ub] d obtain body where
    b: "m3u8_body body" and t: "t = body @ js ''.m3u8'' @ r"
    and m: "m = js ''$http://'' @ body @ js ''.m3u8''"
    by auto
  from b m have "m3u8_match m" unfolding m3u8_match_iff by blast
  moreover have "s = m @ r" using s t m by simp
  ultimately show ?thesis by blast
qed

lemma match_all_match: "m3u8_match m \<Longrightarrow> match_all (m @ r) = m # match_all r"
proof -
  assume mm: "m3u8_match m"
  then have "m \<noteq> []" unfolding m3u8_match_iff by (auto simp: js_def)
  then obtain c cs where cs: "m @ r = c # cs" by (cases m) auto
  from match_at_complete [OF mm, of r] have "match_at (c # cs) = Some (m, r)" unfolding cs .
  then have "match_all (c # cs) = m # match_all r" by simp
  then show ?thesis unfolding cs .
qed

lemma match_all_skip:
  "(\<forall>k. \<not> m3u8_match (take k (c # cs))) \<Longrightarrow> match_all (c # cs) = match_all cs"
proof -
  assume none: "\<forall>k. \<not> m3u8_match (take k (c # cs))"
  have "match_at (c # cs) = None"
  proof (cases "match_at (c # cs)")
    case None
    then show ?thesis .
  next
    case (Some mr)
    obtain m r where "mr = (m, r)" by (cases mr)
    with Some have "match_at (c # cs) = Some (m, r)" by simp
    from match_at_shape [OF this] have "c # cs = m @ r" and mm: "m3u8_match m" by simp_all
    then have "take (length m) (c # cs) = m" by simp
    with none mm show ?thesis by metis
  qed
  then show ?thesis by simp
qed

lemma sep_free_first:
  assumes "\<forall>a b. g @ js ''$$'' \<noteq> a @ js ''$$$'' @ b"
  shows "sep_free_upto (length g) (g @ sep @ t)"
  unfolding sep_free_upto_def
proof (intro allI impI)
  fix a b
  assume eq: "g @ sep @ t = a @ sep @ b"
  show "length g \<le> length a"
  proof (rule ccontr)
    assume "\<not> length g \<le> length a"
    then have lt: "length a < length g" by simp
    have "take (length g + 2) (g @ sep @ t) = g @ js ''$$''"
      by (simp add: sep_simp js_def)
    moreover have "take (length g + 2) (a @ sep @ b)
        = a @ js ''$$$'' @ take (length g + 2 - length a - 3) b"
    proof -
      from lt obtain j where j: "length g = Suc (length a + j)" using less_iff_Suc_add by blast
      show ?thesis by (simp add: j sep_simp js_def numeral_3_eq_3)
    qed
    ultimately have "g @ js ''$$'' = a @ js ''$$$'' @ take (length g + 2 - length a - 3) b"
      using eq by simp
    with assms show False by blast
  qed
qed

lemma split_dollars_single:
  "(\<forall>a b. g \<noteq> a @ js ''$$$'' @ b) \<Longrightarrow> split_dollars g = [g]"
proof -
  assume "\<forall>a b. g \<noteq> a @ js ''$$$'' @ b"
  then have "\<not> includes_str g sep" unfolding includes_iff sep_def by blast
  then show ?thesis unfolding split_dollars_def by (simp add: split_from_no_sep)
qed

lemma split_dollars_first:
  "(\<forall>a b. g @ js ''$$'' \<noteq> a @ js ''$$$'' @ b) \<Longrightarrow>
   split_dollars (g @ js ''$$$'' @ rest) = g # split_dollars rest"
proof -
  assume "\<forall>a b. g @ js ''$$'' \<noteq> a @ js ''$$$'' @ b"
  then have "sep_free_upto (length g) (g @ sep @ rest)" by (rule sep_free_first)
  then have "split_from [] (g @ sep @ rest) = ([] @ g) # split_from [] rest"
    by (rule split_from_sep)
  then show ?thesis unfolding split_dollars_def sep_def by simp
qed

lemma selected_group:
  "L \<noteq> [] \<Longrightarrow> \<exists>x \<in> set L. largest_group L = x \<and> (\<forall>y \<in> set L. length y \<le> length x)"
proof (induction L)
  case Nil
  then show ?case by simp
next
  case (Cons x L)
  have mx: "\<forall>y \<in> set L. length y \<le> foldr max (map length L) 0" for L :: "jsstring list list"
    by (induction L) (auto simp: max_def)
  show ?case
  proof (cases "foldr max (map length L) 0 \<le> length x")
    case True
    then have "largest_group (x # L) = x" by (simp add: largest_group_Cons)
    moreover have "\<forall>y \<in> set (x # L). length y \<le> length x"
      using True mx [of L] by auto
    ultimately show ?thesis by auto
  next
    case False
    then have lg: "largest_group (x # L) = largest_group L" by (simp add: largest_group_Cons)
    from False have "L \<noteq> []" by auto
    from Cons.IH [OF this] obtain z where z: "z \<in> set L" "largest_group L = z"
      "\<forall>y \<in> set L. length y \<le> length z" by blast
    have "foldr max (map length L) 0 \<le> length z"
    proof -
      have "foldr max (map length L) 0 \<le> n" if "\<forall>y \<in> set L. length y \<le> n" for n and L :: "jsstring list list"
        using that by (induction L) auto
      with z(3) show ?thesis by blast
    qed
    with False have "length x \<le> length z" by simp
    with z lg show ?thesis by auto
  qed
qed

lemma split_from_nonempty: "split_from cur s \<noteq> []"
  by (induction cur s rule: split_from.induct) auto

lemma split_dollars_nonempty: "split_dollars p \<noteq> []"
  unfolding split_dollars_def by (rule split_from_nonempty)


lemma selected_index:
  "L \<noteq> [] \<Longrightarrow>
   \<exists>i<length L. largest_group L = L ! i \<and> (\<forall>j<length L. length (L ! j) \<le> length (L ! i))
     \<and> (\<forall>j<i. length (L ! j) < length (L ! i))"
proof (induction L)
  case Nil
  then show ?case by simp
next
  case (Cons x L)
  have mx: "length (K ! j) \<le> foldr max (map length K) 0" if "j < length K"
    for K :: "jsstring list list" and j
    using that by (induction K arbitrary: j) (auto simp: nth_Cons le_max_iff_disj split: nat.split)
  show ?case
  proof (cases "foldr max (map length L) 0 \<le> length x")
    case True
    then have "largest_group (x # L) = (x # L) ! 0" by (simp add: largest_group_Cons)
    moreover have "\<forall>j<length (x # L). length ((x # L) ! j) \<le> length ((x # L) ! 0)"
    proof (intro allI impI)
      fix j assume "j < length (x # L)"
      then show "length ((x # L) ! j) \<le> length ((x # L) ! 0)"
        using True mx [of _ L] by (cases j) (auto intro: order_trans)
    qed
    ultimately show ?thesis by (intro exI [of _ 0]) simp
  next
    case False
    then have lg: "largest_group (x # L) = largest_group L" by (simp add: largest_group_Cons)
    from False have "L \<noteq> []" by auto
    from Cons.IH [OF this] obtain i where i: "i < length L" "largest_group L = L ! i"
      "\<forall>j<length L. length (L ! j) \<le> length (L ! i)" "\<forall>j<i. length (L ! j) < length (L ! i)"
      by blast
    have "foldr max (map length K) 0 \<le> n" if "\<forall>j<length K. length (K ! j) \<le> n"
      for n and K :: "jsstring list list"
      using that
    proof (induction K)
      case Nil
      show ?case by simp
    next
      case (Cons y K)
      from Cons.prems have "length ((y # K) ! 0) \<le> n" by blast
      moreover have "\<forall>j<length K. length (K ! j) \<le> n"
      proof (intro allI impI)
        fix j assume "j < length K"
        then have "Suc j < length (y # K)" by simp
        with Cons.prems have "length ((y # K) ! Suc j) \<le> n" by blast
        then show "length (K ! j) \<le> n" by simp
      qed
      ultimately show ?case using Cons.IH by simp
    qed
    with i(3) have "foldr max (map length L) 0 \<le> length (L ! i)" by blast
    with False have xl: "length x < length (L ! i)" by simp
    have a: "Suc i < length (x # L)" using i(1) by simp
    have b: "largest_group (x # L) = (x # L) ! Suc i" using lg i(2) by simp
    have c: "\<forall>j<length (x # L). length ((x # L) ! j) \<le> length ((x # L) ! Suc i)"
    proof (intro allI impI)
      fix j assume "j < length (x # L)"
      then show "length ((x # L) ! j) \<le> length ((x # L) ! Suc i)"
        using xl i(3) by (cases j) auto
    qed
    have d: "\<forall>j<Suc i. length ((x # L) ! j) < length ((x # L) ! Suc i)"
    proof (intro allI impI)
      fix j assume "j < Suc i"
      then show "length ((x # L) ! j) < length ((x # L) ! Suc i)"
        using xl i(4) by (cases j) auto
    qed
    from a b c d show ?thesis by blast
  qed
qed

lemma match_all_shape:
  "m \<in> set (match_all g) \<Longrightarrow> (\<exists>a b. g = a @ m @ b) \<and> m3u8_match m"
proof (induction g rule: match_all.induct)
  case 1
  then show ?case by simp
next
  case (2 c cs)
  show ?case
  proof (cases "match_at (c # cs)")
    case None
    with "2.prems" have "m \<in> set (match_all cs)" by simp
    from "2.IH"(1) [OF None this] obtain a b where "cs = a @ m @ b" and mm: "m3u8_match m"
      by blast
    then have "c # cs = (c # a) @ m @ b" by simp
    with mm show ?thesis by blast
  next
    case (Some mr)
    obtain m' r where mr: "mr = (m', r)" by (cases mr)
    from Some mr have ma: "match_at (c # cs) = Some (m', r)" by simp
    note shape = match_at_shape [OF ma]
    from "2.prems" ma consider "m = m'" | "m \<in> set (match_all r)" by auto
    then show ?thesis
    proof cases
      case 1
      from shape have "c # cs = [] @ m' @ r" by simp
      with shape 1 show ?thesis by blast
    next
      case 2
      from "2.IH"(2) [OF Some mr [symmetric] 2] obtain a b where "r = a @ m @ b"
        and mm: "m3u8_match m"
        by blast
      with shape have "c # cs = (m' @ a) @ m @ b" by simp
      with mm show ?thesis by blast
    qed
  qed
qed

section \<open>The claims about the episode extractor\<close>

text \<open>
  C5. Without a playback field, or with an empty one, there are no episodes. Otherwise
  the field is split at \<open>$$$\<close>: a field without \<open>$$$\<close> is one group, and otherwise the
  text before the first \<open>$$$\<close> is the first group and the text after it is split in the
  same way. The matches of a group are found from left to right: where a match of the
  pattern starts, it is taken and the search goes on behind it; where none starts, the
  search goes on one character further. Every match is a part of its group and a match
  of the pattern. The group selected is the first one with the largest number of
  matches: no group has more, every group before it has fewer, and nothing of any other
  group is kept. The selected matches are reduced to their first occurrences in the order
  in which they are first seen, the \<open>$\<close> is dropped and each URL is cut at its first
  parenthesis when that is at a position greater than 0. The scenario of the
  specification gives the two URLs it names; two groups with one match each give the URL
  of the first group only; a group with two matches wins over an earlier group with one;
  white space or a quote inside a URL leaves no match; the URL ends at the first
  \<open>.m3u8\<close>; a scheme other than http and https is no match.
\<close>

theorem extractor_algorithm:
  "extractEpisodes None = []
   \<and> extractEpisodes (Some []) = []
   \<and> (p \<noteq> [] \<longrightarrow>
        extractEpisodes (Some p)
          = map strip_annotation (first_seen (largest_group (map match_all (split_dollars p)))))
   \<and> (p \<noteq> [] \<longrightarrow>
        (\<exists>i<length (split_dollars p).
           extractEpisodes (Some p)
             = map strip_annotation (first_seen (match_all (split_dollars p ! i)))
           \<and> (\<forall>j<length (split_dollars p).
                 length (match_all (split_dollars p ! j)) \<le> length (match_all (split_dollars p ! i)))
           \<and> (\<forall>j<i.
                 length (match_all (split_dollars p ! j)) < length (match_all (split_dollars p ! i)))))
   \<and> ((\<forall>a b. g \<noteq> a @ js ''$$$'' @ b) \<longrightarrow> split_dollars g = [g])
   \<and> ((\<forall>a b. g @ js ''$$'' \<noteq> a @ js ''$$$'' @ b) \<longrightarrow>
        split_dollars (g @ js ''$$$'' @ rest) = g # split_dollars rest)
   \<and> match_all [] = []
   \<and> (m3u8_match m \<longrightarrow> match_all (m @ r) = m # match_all r)
   \<and> ((\<forall>k. \<not> m3u8_match (take k (c # cs))) \<longrightarrow> match_all (c # cs) = match_all cs)
   \<and> (\<forall>g m. m \<in> set (match_all g) \<longrightarrow> (\<exists>a b. g = a @ m @ b) \<and> m3u8_match m)
   \<and> extractEpisodes (Some scenario) = [js ''https://a.com/1.m3u8'', js ''https://a.com/2.m3u8'']
   \<and> extractEpisodes (Some (js ''$http://a.m3u8$$$$http://b.m3u8'')) = [js ''http://a.m3u8'']
   \<and> extractEpisodes (Some (js ''$http://a.m3u8$$$$http://b.m3u8$http://c.m3u8''))
       = [js ''http://b.m3u8'', js ''http://c.m3u8'']
   \<and> extractEpisodes (Some (js ''$http://a b.m3u8'')) = []
   \<and> extractEpisodes (Some (js ''$http://a'' @ [34] @ js ''b.m3u8'')) = []
   \<and> extractEpisodes (Some (js ''$http://a'' @ [39] @ js ''b.m3u8'')) = []
   \<and> extractEpisodes (Some (js ''$http://a.m3u8.m3u8'')) = [js ''http://a.m3u8'']
   \<and> extractEpisodes (Some (js ''$ftp://a.m3u8$https://b.m3u8'')) = [js ''https://b.m3u8'']"
proof (intro conjI allI impI)
  show "extractEpisodes None = []" and "extractEpisodes (Some []) = []"
    by (simp_all add: extractEpisodes_def new_Set_def)
  show "extractEpisodes (Some scenario) = [js ''https://a.com/1.m3u8'', js ''https://a.com/2.m3u8'']"
    by (rule extract_scenario)
  show "extractEpisodes (Some (js ''$http://a.m3u8$$$$http://b.m3u8'')) = [js ''http://a.m3u8'']"
    by (simp add: extract_defs)
  show "extractEpisodes (Some (js ''$http://a.m3u8$$$$http://b.m3u8$http://c.m3u8''))
       = [js ''http://b.m3u8'', js ''http://c.m3u8'']"
    by (simp add: extract_defs)
  show "extractEpisodes (Some (js ''$http://a b.m3u8'')) = []"
    by (simp add: extract_defs)
  show "extractEpisodes (Some (js ''$http://a'' @ [34] @ js ''b.m3u8'')) = []"
    by (simp add: extract_defs)
  show "extractEpisodes (Some (js ''$http://a'' @ [39] @ js ''b.m3u8'')) = []"
    by (simp add: extract_defs)
  show "extractEpisodes (Some (js ''$http://a.m3u8.m3u8'')) = [js ''http://a.m3u8'']"
    by (simp add: extract_defs)
  show "extractEpisodes (Some (js ''$ftp://a.m3u8$https://b.m3u8'')) = [js ''https://b.m3u8'']"
    by (simp add: extract_defs)
  show "match_all [] = []" by simp
next
  assume ne: "p \<noteq> []"
  then show alg: "extractEpisodes (Some p)
      = map strip_annotation (first_seen (largest_group (map match_all (split_dollars p))))"
    by (simp add: extractEpisodes_def new_Set_first_seen select_largest_group clean_link_strip [abs_def])
  have "map match_all (split_dollars p) \<noteq> []" using split_dollars_nonempty [of p] by simp
  from selected_index [OF this] obtain i where i: "i < length (split_dollars p)"
    and lg: "largest_group (map match_all (split_dollars p)) = match_all (split_dollars p ! i)"
    and mx: "\<forall>j<length (split_dollars p).
        length (match_all (split_dollars p ! j)) \<le> length (match_all (split_dollars p ! i))"
    and fst: "\<forall>j<i. length (match_all (split_dollars p ! j)) < length (match_all (split_dollars p ! i))"
    by auto
  from alg lg have "extractEpisodes (Some p)
      = map strip_annotation (first_seen (match_all (split_dollars p ! i)))"
    by simp
  with i mx fst show "\<exists>i<length (split_dollars p).
           extractEpisodes (Some p)
             = map strip_annotation (first_seen (match_all (split_dollars p ! i)))
           \<and> (\<forall>j<length (split_dollars p).
                 length (match_all (split_dollars p ! j)) \<le> length (match_all (split_dollars p ! i)))
           \<and> (\<forall>j<i.
                 length (match_all (split_dollars p ! j)) < length (match_all (split_dollars p ! i)))"
    by blast
next
  assume "\<forall>a b. g \<noteq> a @ js ''$$$'' @ b"
  then show "split_dollars g = [g]" by (rule split_dollars_single)
next
  assume "\<forall>a b. g @ js ''$$'' \<noteq> a @ js ''$$$'' @ b"
  then show "split_dollars (g @ js ''$$$'' @ rest) = g # split_dollars rest"
    by (rule split_dollars_first)
next
  assume "m3u8_match m"
  then show "match_all (m @ r) = m # match_all r" by (rule match_all_match)
next
  assume "\<forall>k. \<not> m3u8_match (take k (c # cs))"
  then show "match_all (c # cs) = match_all cs" by (rule match_all_skip)
next
  fix g m
  assume m: "m \<in> set (match_all g)"
  from match_all_shape [OF m] show "\<exists>a b. g = a @ m @ b" and "m3u8_match m" by blast+
qed

theorem extractor_algorithm_witness:
  "scenario \<noteq> []
   \<and> map strip_annotation (first_seen (largest_group (map match_all (split_dollars scenario))))
       = [js ''https://a.com/1.m3u8'', js ''https://a.com/2.m3u8'']
   \<and> split_dollars (js ''$1$$$$2$3'') = [js ''$1'', js ''$2$3'']
   \<and> m3u8_match (js ''$http://a.m3u8'')
   \<and> match_all (js ''$http://a.m3u8(CDN1)'') = [js ''$http://a.m3u8'']
   \<and> match_all (js ''x$http://a.m3u8'') = [js ''$http://a.m3u8'']
   \<and> js ''$https://a.com/1.m3u8'' \<in> set (match_all (js ''$https://a.com/1.m3u8(CDN1)''))
   \<and> (\<exists>a b. js ''$https://a.com/1.m3u8(CDN1)'' = a @ js ''$https://a.com/1.m3u8'' @ b)"
proof -
  note T = extractor_algorithm [of scenario]
  have ne: "scenario \<noteq> []" by (simp add: scenario_def js_def)
  with T have "extractEpisodes (Some scenario)
      = map strip_annotation (first_seen (largest_group (map match_all (split_dollars scenario))))"
    by blast
  with T have one: "map strip_annotation (first_seen (largest_group (map match_all (split_dollars scenario))))
      = [js ''https://a.com/1.m3u8'', js ''https://a.com/2.m3u8'']"
    by simp
  have mem: "js ''$https://a.com/1.m3u8'' \<in> set (match_all (js ''$https://a.com/1.m3u8(CDN1)''))"
    by (simp add: js_def startsWith_def match_at_def url_char_def is_space_def)
  with T have part: "\<exists>a b. js ''$https://a.com/1.m3u8(CDN1)'' = a @ js ''$https://a.com/1.m3u8'' @ b"
    by blast
  have free1: "\<forall>a b. js ''$1'' @ js ''$$'' \<noteq> a @ js ''$$$'' @ b"
    using includes_iff [of "js ''$1'' @ js ''$$''" "js ''$$$''"]
    by (simp add: js_def startsWith_def)
  have free2: "\<forall>a b. js ''$2$3'' \<noteq> a @ js ''$$$'' @ b"
    using includes_iff [of "js ''$2$3''" "js ''$$$''"]
    by (simp add: js_def startsWith_def)
  from extractor_algorithm [where g = "js ''$1''" and rest = "js ''$2$3''"] free1
  have s1: "split_dollars (js ''$1'' @ js ''$$$'' @ js ''$2$3'') = js ''$1'' # split_dollars (js ''$2$3'')"
    by blast
  from extractor_algorithm [where g = "js ''$2$3''"] free2
  have s2: "split_dollars (js ''$2$3'') = [js ''$2$3'']"
    by blast
  from s1 s2 have split: "split_dollars (js ''$1$$$$2$3'') = [js ''$1'', js ''$2$3'']"
    by (simp add: js_def)
  have mm: "m3u8_match (js ''$http://a.m3u8'')"
    by (simp add: m3u8_match_def m3u8_body_def js_def is_space_def)
  from extractor_algorithm [where m = "js ''$http://a.m3u8''" and r = "js ''(CDN1)''"] mm
  have "match_all (js ''$http://a.m3u8'' @ js ''(CDN1)'') = js ''$http://a.m3u8'' # match_all (js ''(CDN1)'')"
    by blast
  then have m1: "match_all (js ''$http://a.m3u8(CDN1)'') = [js ''$http://a.m3u8'']"
    by (simp add: js_def match_at_def startsWith_def)
  have none: "\<forall>k. \<not> m3u8_match (take k (120 # js ''$http://a.m3u8''))"
  proof
    fix k
    show "\<not> m3u8_match (take k (120 # js ''$http://a.m3u8''))"
      unfolding m3u8_match_iff by (cases k) (auto simp: js_def)
  qed
  from extractor_algorithm [where c = 120 and cs = "js ''$http://a.m3u8''"] none
  have "match_all (120 # js ''$http://a.m3u8'') = match_all (js ''$http://a.m3u8'')"
    by blast
  moreover from extractor_algorithm [where m = "js ''$http://a.m3u8''" and r = "[]"] mm
  have "match_all (js ''$http://a.m3u8'' @ []) = js ''$http://a.m3u8'' # match_all []"
    by blast
  ultimately have m2: "match_all (js ''x$http://a.m3u8'') = [js ''$http://a.m3u8'']"
    by (simp add: js_def)
  show ?thesis using ne one split mm m1 m2 mem part by blast
qed

text \<open>
  C6, as the code has it. When none of the matches selected by the first run holds a
  parenthesis (so that no URL is cut), the second run, on the URLs of the first run with
  \<open>$\<close> in front and joined by \<open>$$$\<close>, returns the first URL of the first run and
  nothing else: every URL has become a group of its own with one match, and the first
  group wins the tie. So the second run reproduces the first exactly when the first has
  at most one URL.
\<close>

theorem extractor_round_trip:
  assumes "\<forall>m \<in> set (largest_group (map match_all (split_dollars p))). 40 \<notin> set m"
  shows "extractEpisodes (Some (rejoin (extractEpisodes (Some p)))) = take 1 (extractEpisodes (Some p))"
proof (cases "p = []")
  case True
  then show ?thesis by (simp add: extractEpisodes_def new_Set_def rejoin_def)
next
  case False
  let ?sel = "largest_group (map match_all (split_dollars p))"
  let ?ms = "first_seen ?sel"
  have good: "\<And>m. m \<in> set ?ms \<Longrightarrow> piece m \<and> js ''$'' @ drop 1 m = m \<and> match_all m = [m]"
    using selected_are_pieces [of _ p] by (simp add: set_first_seen)
  have plain: "\<And>m. m \<in> set ?ms \<Longrightarrow> clean_link m = drop 1 m"
    using assms by (simp add: set_first_seen clean_link_untouched)
  have first: "extractEpisodes (Some p) = map (drop 1) ?ms"
    using False plain by (simp add: extractEpisodes_def new_Set_first_seen select_largest_group)
  have "map (\<lambda>u. js ''$'' @ u) (map (drop 1) ?ms) = ?ms"
    using good by (simp add: map_idI)
  then have again: "rejoin (map (drop 1) ?ms) = join_dollars ?ms"
    by (simp add: rejoin_def)
  show ?thesis
  proof (cases ?ms)
    case Nil
    then have "extractEpisodes (Some p) = []" using first by simp
    moreover have "rejoin [] = []" by (simp add: rejoin_def)
    moreover have "extractEpisodes (Some []) = []" by (simp add: extractEpisodes_def new_Set_def)
    ultimately show ?thesis by simp
  next
    case (Cons m1 rest)
    then have ne: "?ms \<noteq> []" by simp
    from Cons good have g1: "piece m1" and one: "match_all m1 = [m1]" by simp_all
    then have "hd ?ms \<noteq> []" using Cons by (simp add: piece_def)
    with ne have nonempty: "join_dollars ?ms \<noteq> []" by (rule join_dollars_nonempty)
    have sp: "split_dollars (join_dollars ?ms) = ?ms"
      using ne good by (intro split_join) auto
    have "foldl pick_group [] (m1 # rest) = foldl pick_group [m1] rest"
      using one by (simp add: pick_group_def)
    also have "\<dots> = [m1]"
      using good Cons by (intro foldl_pick_single) auto
    finally have sel2: "foldl pick_group [] ?ms = [m1]" using Cons by simp
    have "extractEpisodes (Some (join_dollars ?ms)) = [clean_link m1]"
      using nonempty by (simp add: extractEpisodes_def sp sel2 new_Set_def set_add_def)
    also have "\<dots> = [drop 1 m1]" using plain Cons by simp
    also have "\<dots> = take 1 (map (drop 1) ?ms)" using Cons by simp
    finally show ?thesis unfolding first again .
  qed
qed

theorem extractor_round_trip_witness:
  "extractEpisodes (Some (rejoin (extractEpisodes (Some scenario)))) = [js ''https://a.com/1.m3u8'']
   \<and> extractEpisodes (Some (rejoin (extractEpisodes (Some (js ''$https://a.com/1.m3u8(CDN1)'')))))
       = extractEpisodes (Some (js ''$https://a.com/1.m3u8(CDN1)''))"
proof -
  have s1: "largest_group (map match_all (split_dollars scenario))
      = [js ''$https://a.com/1.m3u8'', js ''$https://a.com/2.m3u8'']"
    by (simp add: scenario_def largest_group_def js_def split_dollars_def startsWith_def
        match_at_def url_char_def is_space_def)
  have h1: "\<forall>m \<in> set (largest_group (map match_all (split_dollars scenario))). 40 \<notin> set m"
    unfolding s1 by (simp add: js_def)
  have s2: "largest_group (map match_all (split_dollars (js ''$https://a.com/1.m3u8(CDN1)'')))
      = [js ''$https://a.com/1.m3u8'']"
    by (simp add: largest_group_def js_def split_dollars_def startsWith_def
        match_at_def url_char_def is_space_def)
  have h2: "\<forall>m \<in> set (largest_group (map match_all (split_dollars (js ''$https://a.com/1.m3u8(CDN1)'')))). 40 \<notin> set m"
    unfolding s2 by (simp add: js_def)
  have e2: "extractEpisodes (Some (js ''$https://a.com/1.m3u8(CDN1)'')) = [js ''https://a.com/1.m3u8'']"
    by (simp add: extractEpisodes_def js_def split_dollars_def startsWith_def pick_group_def
        match_at_def url_char_def is_space_def new_Set_def set_add_def clean_link_def)
  from extractor_round_trip [OF h1]
  have a: "extractEpisodes (Some (rejoin (extractEpisodes (Some scenario)))) = [js ''https://a.com/1.m3u8'']"
    by (simp add: extract_scenario)
  from extractor_round_trip [OF h2]
  have b: "extractEpisodes (Some (rejoin (extractEpisodes (Some (js ''$https://a.com/1.m3u8(CDN1)'')))))
       = extractEpisodes (Some (js ''$https://a.com/1.m3u8(CDN1)''))"
    by (simp add: e2)
  show ?thesis using a b by simp
qed

text \<open>
  C6 as the specification states it fails: the two URLs of the scenario come back as
  one, and a URL that was cut at a parenthesis does not come back at all.
\<close>

theorem extractor_round_trip_counterexample:
  "extractEpisodes (Some scenario) = [js ''https://a.com/1.m3u8'', js ''https://a.com/2.m3u8'']
   \<and> extractEpisodes (Some (rejoin (extractEpisodes (Some scenario)))) = [js ''https://a.com/1.m3u8'']
   \<and> extractEpisodes (Some (js ''$http://a.com/v(1).m3u8'')) = [js ''http://a.com/v'']
   \<and> extractEpisodes (Some (rejoin (extractEpisodes (Some (js ''$http://a.com/v(1).m3u8''))))) = []"
proof -
  have a: "extractEpisodes (Some (rejoin [js ''https://a.com/1.m3u8'', js ''https://a.com/2.m3u8'']))
      = [js ''https://a.com/1.m3u8'']"
    by (simp add: rejoin_def extractEpisodes_def js_def split_dollars_def startsWith_def pick_group_def
        match_at_def url_char_def is_space_def new_Set_def set_add_def clean_link_def)
  have b: "extractEpisodes (Some (js ''$http://a.com/v(1).m3u8'')) = [js ''http://a.com/v'']"
    by (simp add: extractEpisodes_def js_def split_dollars_def startsWith_def pick_group_def
        match_at_def url_char_def is_space_def new_Set_def set_add_def clean_link_def)
  have c: "extractEpisodes (Some (rejoin [js ''http://a.com/v''])) = []"
    by (simp add: rejoin_def extractEpisodes_def js_def split_dollars_def startsWith_def pick_group_def
        match_at_def url_char_def is_space_def new_Set_def set_add_def clean_link_def)
  show ?thesis using a b c by (simp add: extract_scenario)
qed

end
